theory Spec2Isabelle
  imports Main
begin

section \<open>Cellular automata editor: rule engine and SVG exporter\<close>

text \<open>
  A shallow embedding of the algorithmic core of \<^verbatim>\<open>cellular-automata-editor\<close>
  (\<^verbatim>\<open>getRuleLookup\<close>, \<^verbatim>\<open>applyRule\<close>, \<^verbatim>\<open>generatePattern\<close> and the two versions of
  \<^verbatim>\<open>generateSVG\<close>). Numbers are the non-negative integers the widgets of the editor
  produce; JavaScript's \<^verbatim>\<open>null\<close> and \<^verbatim>\<open>undefined\<close> are both \<open>None\<close>, since every use
  of a cell in the source tests its truthiness only.
\<close>

subsection \<open>JavaScript values and runtime errors\<close>

datatype error = TypeError

text \<open>A grid cell: \<^verbatim>\<open>true\<close>, \<^verbatim>\<open>false\<close>, or \<^verbatim>\<open>null\<close> (a row not generated yet).\<close>

type_synonym cell = "bool option"

definition truthy :: "cell \<Rightarrow> bool" where
  "truthy v = (v = Some True)"

text \<open>\<^verbatim>\<open>xs[i]\<close> on an array: \<^verbatim>\<open>undefined\<close> outside the array, also at index -1.\<close>

definition js_index :: "cell list \<Rightarrow> int \<Rightarrow> cell" where
  "js_index xs i = (if 0 \<le> i \<and> nat i < length xs then xs ! nat i else None)"

text \<open>\<^verbatim>\<open>v || false\<close>\<close>

definition or_false :: "cell \<Rightarrow> cell" where
  "or_false v = (if truthy v then v else Some False)"

subsection \<open>Numbers as strings\<close>

definition digit_char :: "nat \<Rightarrow> char" where
  "digit_char d = ''0123456789'' ! d"

text \<open>\<^verbatim>\<open>n.toString(radix)\<close> for a non-negative integer and a radix from 2 to 10.\<close>

function toStringRadix :: "nat \<Rightarrow> nat \<Rightarrow> string" where
  "toStringRadix b n =
     (if n < b \<or> b < 2 then [digit_char n]
      else toStringRadix b (n div b) @ [digit_char (n mod b)])"
  by pat_completeness auto
termination
  by (relation "measure (\<lambda>(b, n). n)") auto

declare toStringRadix.simps [simp del]

text \<open>\<^verbatim>\<open>s.padStart(n, c)\<close> with a one-character pad string.\<close>

definition padStart :: "nat \<Rightarrow> char \<Rightarrow> string \<Rightarrow> string" where
  "padStart n c s = replicate (n - length s) c @ s"

text \<open>\<^verbatim>\<open>s[i] === c\<close>: \<^verbatim>\<open>s[i]\<close> is \<^verbatim>\<open>undefined\<close> past the end of the string.\<close>

definition char_is :: "string \<Rightarrow> nat \<Rightarrow> char \<Rightarrow> bool" where
  "char_is s i c = (i < length s \<and> s ! i = c)"

subsection \<open>Rule engine\<close>

text \<open>The lookup object: its keys in the order of the object literal.\<close>

type_synonym rule_table = "(string \<times> bool) list"

definition patterns :: "string list" where
  "patterns = [''111'', ''110'', ''101'', ''100'', ''011'', ''010'', ''001'', ''000'']"

definition getRuleLookup :: "nat \<Rightarrow> rule_table" where
  "getRuleLookup ruleNumber =
     (let binary = padStart 8 (CHR ''0'') (toStringRadix 2 ruleNumber) in
      [(''111'', char_is binary 0 (CHR ''1'')),
       (''110'', char_is binary 1 (CHR ''1'')),
       (''101'', char_is binary 2 (CHR ''1'')),
       (''100'', char_is binary 3 (CHR ''1'')),
       (''011'', char_is binary 4 (CHR ''1'')),
       (''010'', char_is binary 5 (CHR ''1'')),
       (''001'', char_is binary 6 (CHR ''1'')),
       (''000'', char_is binary 7 (CHR ''1''))])"

text \<open>\<^verbatim>\<open>v ? '1' : '0'\<close>\<close>

definition bit_char :: "cell \<Rightarrow> char" where
  "bit_char v = (if truthy v then CHR ''1'' else CHR ''0'')"

text \<open>\<^verbatim>\<open>ruleLookup[pattern]\<close>: \<^verbatim>\<open>undefined\<close> for a key the object does not have.\<close>

definition lookup :: "rule_table \<Rightarrow> string \<Rightarrow> cell" where
  "lookup ruleLookup pattern = map_of ruleLookup pattern"

definition applyRule :: "cell list \<Rightarrow> rule_table \<Rightarrow> cell list" where
  "applyRule prevRow ruleLookup =
     map (\<lambda>i.
        let left = or_false (js_index prevRow (int i - 1));
            center = js_index prevRow (int i);
            right = or_false (js_index prevRow (int i + 1));
            pattern = [bit_char left, bit_char center, bit_char right]
        in lookup ruleLookup pattern)
      [0..<length prevRow]"

text \<open>
  The state of the editor that \<^verbatim>\<open>generatePattern\<close> and \<^verbatim>\<open>generateSVG\<close> read and write
  (the \<^verbatim>\<open>useState\<close> variables of the component). The timer that
  paces \<^verbatim>\<open>animate\<close> (one row every 50 ms) is not modelled: each call of \<^verbatim>\<open>animate\<close>
  is followed by the next one.
\<close>

record editor =
  cols :: nat
  rows :: nat
  rule :: nat
  grid :: "cell list list"
  isAnimating :: bool
  animationRow :: nat
  roundedCorners :: nat
  cellSize :: nat
  hasGenerated :: bool

text \<open>
  The updater passed to \<^verbatim>\<open>setGrid\<close>: \<^verbatim>\<open>applyRule\<close> calls \<^verbatim>\<open>prevRow.map\<close>, a TypeError when
  row \<^verbatim>\<open>currentRow - 1\<close> does not exist; an assignment at index \<^verbatim>\<open>length\<close> extends the
  array by one element.
\<close>

definition setGridRow :: "nat \<Rightarrow> rule_table \<Rightarrow> cell list list \<Rightarrow> error + cell list list" where
  "setGridRow currentRow ruleLookup prev =
     (let newGrid = prev in
      if currentRow > 0 then
        (if currentRow - 1 < length newGrid then
           (let row = applyRule (newGrid ! (currentRow - 1)) ruleLookup in
            Inr (if currentRow < length newGrid then newGrid[currentRow := row]
                 else newGrid @ [row]))
         else Inl TypeError)
      else Inr newGrid)"

function animate :: "rule_table \<Rightarrow> nat \<Rightarrow> editor \<Rightarrow> error + editor" where
  "animate ruleLookup currentRow st =
     (if currentRow \<ge> rows st then Inr (st\<lparr>isAnimating := False, hasGenerated := True\<rparr>)
      else case setGridRow currentRow ruleLookup (grid st) of
             Inl e \<Rightarrow> Inl e
           | Inr g \<Rightarrow> animate ruleLookup (currentRow + 1)
                        (st\<lparr>grid := g, animationRow := currentRow + 1\<rparr>))"
  by pat_completeness auto
termination
  by (relation "measure (\<lambda>(t, currentRow, st). rows st - currentRow)") auto

declare animate.simps [simp del]


text \<open>
  The rule list of the editor (\<^verbatim>\<open>filteredRules\<close>): the numbers 0..255 whose decimal
  string contains the search text.
\<close>

fun string_includes :: "string \<Rightarrow> string \<Rightarrow> bool" where
  "string_includes [] t = (t = [])"
| "string_includes (x # xs) t = (take (length t) (x # xs) = t \<or> string_includes xs t)"

definition filteredRules :: "string \<Rightarrow> nat list" where
  "filteredRules ruleSearch = filter (\<lambda>r. string_includes (toStringRadix 10 r) ruleSearch) [0..<256]"


text \<open>
  The batch reading of the specification: row \<open>k\<close> is \<^verbatim>\<open>stepRow\<close> applied \<open>k\<close> times to the
  seed row.
\<close>

definition generate_batch :: "cell list \<Rightarrow> rule_table \<Rightarrow> nat \<Rightarrow> cell list list" where
  "generate_batch seedRow table rowCount =
     map (\<lambda>k. ((\<lambda>row. applyRule row table) ^^ k) seedRow) [0..<rowCount]"

subsection \<open>Vector exporter\<close>

type_synonym matrix = "bool list list"

text \<open>\<^verbatim>\<open>grid[r] && grid[r][c]\<close> as a condition.\<close>

definition grid_filled :: "cell list list \<Rightarrow> nat \<Rightarrow> nat \<Rightarrow> bool" where
  "grid_filled g r c = (r < length g \<and> c < length (g ! r) \<and> truthy (g ! r ! c))"

text \<open>
  \<^verbatim>\<open>matrix\<close>: allocated \<^verbatim>\<open>rows\<close> by \<^verbatim>\<open>cols\<close> and all false, then set to true at every
  filled cell of the grid by the two nested loops.
\<close>

definition build_matrix :: "cell list list \<Rightarrow> nat \<Rightarrow> nat \<Rightarrow> matrix" where
  "build_matrix g nrows ncols = map (\<lambda>r. map (\<lambda>c. grid_filled g r c) [0..<ncols]) [0..<nrows]"

text \<open>
  \<^verbatim>\<open>m[r][c]\<close> as a condition, for a row \<^verbatim>\<open>m[r]\<close> that exists: \<^verbatim>\<open>undefined\<close>, hence false,
  past the end of the row. (When the row does not exist the read is a TypeError, which
  the callers below raise.)
\<close>

definition cell_at :: "matrix \<Rightarrow> nat \<Rightarrow> nat \<Rightarrow> bool" where
  "cell_at m r c = (c < length (m ! r) \<and> m ! r ! c)"

text \<open>
  \<^verbatim>\<open>visited[r][c] = true\<close> for a row that exists: an assignment past the end of the row
  extends it, and the holes it leaves read as \<^verbatim>\<open>undefined\<close>.
\<close>

definition mark :: "matrix \<Rightarrow> nat \<Rightarrow> nat \<Rightarrow> matrix" where
  "mark v r c =
     v[r := (let row = v ! r in
             if c < length row then row[c := True]
             else row @ replicate (c - length row) False @ [True])]"

text \<open>The cells of the \<^verbatim>\<open>rows\<close> by \<^verbatim>\<open>cols\<close> area that are not marked in \<open>v\<close>.\<close>

definition unmarked :: "nat \<Rightarrow> nat \<Rightarrow> matrix \<Rightarrow> (nat \<times> nat) set" where
  "unmarked nrows ncols v =
     {(r, c). r < nrows \<and> c < ncols \<and> \<not> (r < length v \<and> cell_at v r c)}"

text \<open>
  The \<^verbatim>\<open>while (stack.length > 0)\<close> loop of the flood fill. The head of the list is the
  top of the stack: \<^verbatim>\<open>push\<close> of four neighbours leaves the last one, \<^verbatim>\<open>[cr, cc+1]\<close>, on
  top. It returns \<^verbatim>\<open>visited\<close> and \<^verbatim>\<open>component\<close> as the loop leaves them.
\<close>

function floodFill ::
  "nat \<Rightarrow> nat \<Rightarrow> matrix \<Rightarrow> matrix \<Rightarrow> (int \<times> int) list \<Rightarrow> (nat \<times> nat) list
   \<Rightarrow> error + (matrix \<times> (nat \<times> nat) list)" where
  "floodFill nrows ncols m visited [] component = Inr (visited, component)"
| "floodFill nrows ncols m visited ((cr, cc) # stack) component =
     (if cr < 0 \<or> cr \<ge> int nrows \<or> cc < 0 \<or> cc \<ge> int ncols
      then floodFill nrows ncols m visited stack component
      else if nat cr \<ge> length visited then Inl TypeError
      else if cell_at visited (nat cr) (nat cc)
      then floodFill nrows ncols m visited stack component
      else if nat cr \<ge> length m then Inl TypeError
      else if \<not> cell_at m (nat cr) (nat cc)
      then floodFill nrows ncols m visited stack component
      else floodFill nrows ncols m (mark visited (nat cr) (nat cc))
             ((cr, cc + 1) # (cr, cc - 1) # (cr + 1, cc) # (cr - 1, cc) # stack)
             (component @ [(nat cr, nat cc)]))"
  by pat_completeness auto

termination floodFill
proof (relation "measures [\<lambda>(nrows, ncols, m, visited, stack, component).
                              card (unmarked nrows ncols visited),
                            \<lambda>(nrows, ncols, m, visited, stack, component). length stack]",
       goal_cases)
  case (5 nrows ncols m visited cr cc stack component)
  let ?r = "nat cr" and ?c = "nat cc"
  let ?U = "unmarked nrows ncols visited"
  from 5 have len: "?r < length visited" by simp
  have "(r' < length (mark v r c) \<and> cell_at (mark v r c) r' c') =
        ((r' < length v \<and> cell_at v r' c') \<or> (r' = r \<and> c' = c))"
    if "r < length v" for v r c r' c'
  proof (cases "r' = r")
    case False
    then show ?thesis by (auto simp: mark_def cell_at_def)
  next
    case True
    show ?thesis
    proof (cases "c < length (v ! r)")
      case True
      then show ?thesis using \<open>r' = r\<close> that
        by (auto simp: mark_def cell_at_def nth_list_update)
    next
      case False
      then show ?thesis using \<open>r' = r\<close> that
        by (auto simp: mark_def cell_at_def nth_append Let_def)
    qed
  qed
  from this [OF len]
  have eq: "unmarked nrows ncols (mark visited ?r ?c) = ?U - {(?r, ?c)}"
    by (auto simp: unmarked_def)
  have "finite ?U"
    by (rule finite_subset [of _ "{..<nrows} \<times> {..<ncols}"]) (auto simp: unmarked_def)
  moreover from 5 have "(?r, ?c) \<in> ?U"
    by (auto simp: unmarked_def)
  ultimately have "card (?U - {(?r, ?c)}) < card ?U"
    by (rule card_Diff1_less)
  then show ?case by (simp add: eq)
qed auto

declare floodFill.simps [simp del]

text \<open>
  \<^verbatim>\<open>Math.min(...xs)\<close> and \<^verbatim>\<open>Math.max(...xs)\<close> on a list that is not empty (the source calls
  them under \<^verbatim>\<open>component.length > 0\<close> only).
\<close>

fun math_min :: "nat list \<Rightarrow> nat" where
  "math_min (x # xs) = fold min xs x"

fun math_max :: "nat list \<Rightarrow> nat" where
  "math_max (x # xs) = fold max xs x"

text \<open>The template literals of the exporter; \<open>num\<close> is how a number prints in one.\<close>

definition num :: "nat \<Rightarrow> string" where
  "num n = toStringRadix 10 n"

definition rect_plain :: "nat \<Rightarrow> nat \<Rightarrow> nat \<Rightarrow> nat \<Rightarrow> string" where
  \<open>rect_plain x y w h =
     ''<rect x="'' @ num x @ ''" y="'' @ num y @ ''" width="'' @ num w @
     ''" height="'' @ num h @ ''" fill="#000"/>''\<close>

definition rect_rounded :: "nat \<Rightarrow> nat \<Rightarrow> nat \<Rightarrow> nat \<Rightarrow> nat \<Rightarrow> string" where
  \<open>rect_rounded x y w h rc =
     ''<rect x="'' @ num x @ ''" y="'' @ num y @ ''" width="'' @ num w @
     ''" height="'' @ num h @ ''" rx="'' @ num rc @ ''" ry="'' @ num rc @ ''" fill="#000"/>''\<close>

definition svg_document :: "nat \<Rightarrow> nat \<Rightarrow> string \<Rightarrow> string" where
  \<open>svg_document width height body =
     ''<svg width="'' @ num width @ ''" height="'' @ num height @
     ''" xmlns="http://www.w3.org/2000/svg">'' @ body @ ''</svg>''\<close>

text \<open>The rectangle of a component: its bounding box, in pixels.\<close>

definition bbox_rect :: "nat \<Rightarrow> nat \<Rightarrow> (nat \<times> nat) list \<Rightarrow> string" where
  "bbox_rect cs rc component =
     (let minR = math_min (map fst component);
          maxR = math_max (map fst component);
          minC = math_min (map snd component);
          maxC = math_max (map snd component);
          x = minC * cs;
          y = minR * cs;
          w = (maxC - minC + 1) * cs;
          h = (maxR - minR + 1) * cs
      in rect_rounded x y w h rc)"

text \<open>
  The cells in the order of the two nested \<^verbatim>\<open>for\<close> loops: \<^verbatim>\<open>r\<close> from 0 to \<^verbatim>\<open>rows - 1\<close>, and
  for each \<^verbatim>\<open>r\<close>, \<^verbatim>\<open>c\<close> from 0 to \<^verbatim>\<open>cols - 1\<close>.
\<close>

definition scan_order :: "nat \<Rightarrow> nat \<Rightarrow> (nat \<times> nat) list" where
  "scan_order nrows ncols = concat (map (\<lambda>r. map (\<lambda>c. (r, c)) [0..<ncols]) [0..<nrows])"

text \<open>
  The scan of the first version of \<^verbatim>\<open>generateSVG\<close>, over the cells still to visit: it
  carries \<^verbatim>\<open>visited\<close> and \<^verbatim>\<open>path\<close>, and appends the rectangle of a component as soon as the
  flood fill has found it.
\<close>

fun scanPath ::
  "nat \<Rightarrow> nat \<Rightarrow> nat \<Rightarrow> nat \<Rightarrow> matrix \<Rightarrow> (nat \<times> nat) list \<Rightarrow> matrix \<Rightarrow> string
   \<Rightarrow> error + (matrix \<times> string)" where
  "scanPath nrows ncols cs rc m [] visited path = Inr (visited, path)"
| "scanPath nrows ncols cs rc m ((r, c) # todo) visited path =
     (if r \<ge> length m then Inl TypeError
      else if \<not> cell_at m r c then scanPath nrows ncols cs rc m todo visited path
      else if r \<ge> length visited then Inl TypeError
      else if cell_at visited r c then scanPath nrows ncols cs rc m todo visited path
      else case floodFill nrows ncols m visited [(int r, int c)] [] of
             Inl e \<Rightarrow> Inl e
           | Inr (visited', component) \<Rightarrow>
               scanPath nrows ncols cs rc m todo visited'
                 (if length component > 0 then path @ bbox_rect cs rc component else path))"

text \<open>The scan of the second version: it carries \<^verbatim>\<open>visited\<close> and \<^verbatim>\<open>components\<close>.\<close>

fun scanComponents ::
  "nat \<Rightarrow> nat \<Rightarrow> matrix \<Rightarrow> (nat \<times> nat) list \<Rightarrow> matrix \<Rightarrow> (nat \<times> nat) list list
   \<Rightarrow> error + (matrix \<times> (nat \<times> nat) list list)" where
  "scanComponents nrows ncols m [] visited components = Inr (visited, components)"
| "scanComponents nrows ncols m ((r, c) # todo) visited components =
     (if r \<ge> length m then Inl TypeError
      else if \<not> cell_at m r c then scanComponents nrows ncols m todo visited components
      else if r \<ge> length visited then Inl TypeError
      else if cell_at visited r c then scanComponents nrows ncols m todo visited components
      else case floodFill nrows ncols m visited [(int r, int c)] [] of
             Inl e \<Rightarrow> Inl e
           | Inr (visited', component) \<Rightarrow>
               scanComponents nrows ncols m todo visited'
                 (if length component > 0 then components @ [component] else components))"

text \<open>The body of \<^verbatim>\<open>components.forEach\<close> in the second version.\<close>

definition component_rect :: "nat \<Rightarrow> nat \<Rightarrow> (nat \<times> nat) list \<Rightarrow> string" where
  "component_rect cs rc component =
     (if length component = 1 then
        (let (r, c) = component ! 0;
             x = c * cs;
             y = r * cs
         in rect_rounded x y cs cs rc)
      else bbox_rect cs rc component)"

text \<open>The branch of \<^verbatim>\<open>generateSVG\<close> without rounded corners, the same in both versions.\<close>

definition plain_rects :: "cell list list \<Rightarrow> nat \<Rightarrow> nat \<Rightarrow> nat \<Rightarrow> string" where
  "plain_rects g nrows ncols cs =
     foldl (\<lambda>rects (r, c).
              if grid_filled g r c
              then (let x = c * cs; y = r * cs in rects @ rect_plain x y cs cs)
              else rects)
       [] (scan_order nrows ncols)"

definition generateSVG :: "editor \<Rightarrow> error + string" where
  "generateSVG st =
     (let width = cols st * cellSize st;
          height = rows st * cellSize st
      in if roundedCorners st > 0 then
           (let m = build_matrix (grid st) (rows st) (cols st);
                visited = replicate (rows st) (replicate (cols st) False)
            in case scanPath (rows st) (cols st) (cellSize st) (roundedCorners st) m
                      (scan_order (rows st) (cols st)) visited [] of
                 Inl e \<Rightarrow> Inl e
               | Inr (visited', path) \<Rightarrow> Inr (svg_document width height path))
         else Inr (svg_document width height
                     (plain_rects (grid st) (rows st) (cols st) (cellSize st))))"

definition generateSVG_v2 :: "editor \<Rightarrow> error + string" where
  "generateSVG_v2 st =
     (let width = cols st * cellSize st;
          height = rows st * cellSize st
      in if roundedCorners st > 0 then
           (let m = build_matrix (grid st) (rows st) (cols st);
                visited = replicate (rows st) (replicate (cols st) False)
            in case scanComponents (rows st) (cols st) m
                      (scan_order (rows st) (cols st)) visited [] of
                 Inl e \<Rightarrow> Inl e
               | Inr (visited', components) \<Rightarrow>
                   Inr (svg_document width height
                          (foldl (\<lambda>paths component.
                                     paths @ component_rect (cellSize st) (roundedCorners st) component)
                             [] components)))
         else Inr (svg_document width height
                     (plain_rects (grid st) (rows st) (cols st) (cellSize st))))"

text \<open>
  The array \<^verbatim>\<open>components\<close> of the second version when its scan is over.
\<close>

definition foundComponents :: "editor \<Rightarrow> error + (nat \<times> nat) list list" where
  "foundComponents st =
     (case scanComponents (rows st) (cols st) (build_matrix (grid st) (rows st) (cols st))
             (scan_order (rows st) (cols st))
             (replicate (rows st) (replicate (cols st) False)) [] of
        Inl e \<Rightarrow> Inl e
      | Inr (visited, components) \<Rightarrow> Inr components)"

section \<open>Notions of the specification\<close>

text \<open>An unset cell read as an empty one.\<close>

definition unset_to_empty :: "cell \<Rightarrow> cell" where
  "unset_to_empty v = (case v of None \<Rightarrow> Some False | Some b \<Rightarrow> Some b)"

text \<open>
  The filled cells of the \<^verbatim>\<open>rows\<close> by \<^verbatim>\<open>cols\<close> grid, as a set and as the list of them in
  row-major order.
\<close>

definition filled :: "editor \<Rightarrow> (nat \<times> nat) set" where
  "filled st = {(r, c). r < rows st \<and> c < cols st \<and> grid_filled (grid st) r c}"

definition filled_cells :: "editor \<Rightarrow> (nat \<times> nat) list" where
  "filled_cells st =
     filter (\<lambda>(r, c). grid_filled (grid st) r c) (scan_order (rows st) (cols st))"

text \<open>The row-major order of cells: by row, then by column.\<close>

fun row_major_less :: "nat \<times> nat \<Rightarrow> nat \<times> nat \<Rightarrow> bool" where
  "row_major_less (r, c) (r', c') = (r < r' \<or> (r = r' \<and> c < c'))"

text \<open>
  4-adjacency, the cells of \<open>A\<close> that a path of adjacent cells of \<open>A\<close> reaches from a cell
  of \<open>S\<close>, and the 4-connected components of the filled cells: for each filled cell, the
  filled cells reachable from it.
\<close>

fun adj4 :: "nat \<times> nat \<Rightarrow> nat \<times> nat \<Rightarrow> bool" where
  "adj4 (r, c) (r', c') =
     ((c = c' \<and> (r = Suc r' \<or> r' = Suc r)) \<or> (r = r' \<and> (c = Suc c' \<or> c' = Suc c)))"

inductive_set reach :: "(nat \<times> nat) set \<Rightarrow> (nat \<times> nat) set \<Rightarrow> (nat \<times> nat) set"
  for A :: "(nat \<times> nat) set" and S :: "(nat \<times> nat) set" where
  start: "p \<in> S \<Longrightarrow> p \<in> A \<Longrightarrow> p \<in> reach A S"
| step: "p \<in> reach A S \<Longrightarrow> q \<in> A \<Longrightarrow> adj4 p q \<Longrightarrow> q \<in> reach A S"

definition components :: "editor \<Rightarrow> (nat \<times> nat) set set" where
  "components st = {reach (filled st) {p} | p. p \<in> filled st}"

text \<open>
  The number a string is the decimal numeral of: digits only, at least one, and no
  leading zero but in the numeral of 0.
\<close>

definition decimal_value :: "string \<Rightarrow> nat option" where
  "decimal_value s =
     (if s \<noteq> [] \<and> list_all (\<lambda>ch. ch \<in> set ''0123456789'') s \<and>
         (length s = 1 \<or> hd s \<noteq> CHR ''0'')
      then Some (foldl (\<lambda>a ch. 10 * a + (of_char ch - 48)) 0 s)
      else None)"

text \<open>The rounded rectangle that covers the bounding box of a set of cells.\<close>

definition bounding_rect :: "nat \<Rightarrow> nat \<Rightarrow> (nat \<times> nat) set \<Rightarrow> string" where
  "bounding_rect cs rc C =
     rect_rounded (Min (snd ` C) * cs) (Min (fst ` C) * cs)
       ((Max (snd ` C) - Min (snd ` C) + 1) * cs)
       ((Max (fst ` C) - Min (fst ` C) + 1) * cs) rc"

section \<open>Notions of the proofs\<close>

text \<open>
  A matrix of \<^verbatim>\<open>rows\<close> by \<^verbatim>\<open>cols\<close> booleans, as \<^verbatim>\<open>generateSVG\<close> allocates them, and the
  cells it marks.
\<close>

definition wf_matrix :: "nat \<Rightarrow> nat \<Rightarrow> matrix \<Rightarrow> bool" where
  "wf_matrix nrows ncols m = (length m = nrows \<and> (\<forall>row \<in> set m. length row = ncols))"

definition marked :: "matrix \<Rightarrow> (nat \<times> nat) set" where
  "marked v = {(r, c). r < length v \<and> cell_at v r c}"

text \<open>The entries of the stack that lie inside the grid, as cells.\<close>

definition stack_cells :: "nat \<Rightarrow> nat \<Rightarrow> (int \<times> int) list \<Rightarrow> (nat \<times> nat) set" where
  "stack_cells nrows ncols stack =
     {(nat a, nat b) | a b. (a, b) \<in> set stack \<and> 0 \<le> a \<and> a < int nrows \<and> 0 \<le> b \<and> b < int ncols}"

text \<open>
  What one iteration of the two scans has in common: the new \<^verbatim>\<open>visited\<close>, and the
  component found at the cell, if any.
\<close>

definition scan_cell ::
  "nat \<Rightarrow> nat \<Rightarrow> matrix \<Rightarrow> nat \<times> nat \<Rightarrow> matrix \<Rightarrow> error + (matrix \<times> (nat \<times> nat) list list)" where
  "scan_cell nrows ncols m p visited =
     (case p of (r, c) \<Rightarrow>
      if r \<ge> length m then Inl TypeError
      else if \<not> cell_at m r c then Inr (visited, [])
      else if r \<ge> length visited then Inl TypeError
      else if cell_at visited r c then Inr (visited, [])
      else case floodFill nrows ncols m visited [(int r, int c)] [] of
             Inl e \<Rightarrow> Inl e
           | Inr (visited', component) \<Rightarrow>
               Inr (visited', if length component > 0 then [component] else []))"

text \<open>
  The result of the flood fill from a stack: it ends without an error, and appends to the
  component, each once, the unmarked filled cells reachable from the stack through
  unmarked filled cells, marking them; the top of the stack comes first when it is one
  of them.
\<close>

definition flood_post ::
  "nat \<Rightarrow> nat \<Rightarrow> matrix \<Rightarrow> matrix \<Rightarrow> (int \<times> int) list \<Rightarrow> (nat \<times> nat) list
   \<Rightarrow> error + (matrix \<times> (nat \<times> nat) list) \<Rightarrow> bool" where
  "flood_post nrows ncols m v stack cells res =
     (\<exists>v' new. res = Inr (v', cells @ new) \<and>
        wf_matrix nrows ncols v' \<and>
        marked v' = marked v \<union> set new \<and>
        distinct new \<and>
        set new = reach (marked m - marked v) (stack_cells nrows ncols stack) \<and>
        (\<forall>a b rest. stack = (a, b) # rest \<and> 0 \<le> a \<and> a < int nrows \<and> 0 \<le> b \<and> b < int ncols \<and>
             (nat a, nat b) \<in> marked m - marked v \<longrightarrow> new \<noteq> [] \<and> hd new = (nat a, nat b)))"

text \<open>
  The invariant of the scan after the cells \<open>seen\<close>: the marked cells are the cells of the
  components found, no cell is in two of them or twice in one, every filled cell seen
  is marked, every component is the connected component of its first cell, which was
  seen and is the first of the component in row-major order, and the first cells are
  in row-major order.
\<close>

definition scan_inv ::
  "nat \<Rightarrow> nat \<Rightarrow> matrix \<Rightarrow> (nat \<times> nat) list \<Rightarrow> matrix \<Rightarrow> (nat \<times> nat) list list \<Rightarrow> bool" where
  "scan_inv nrows ncols m seen v comps =
     (wf_matrix nrows ncols v \<and>
      marked v = set (concat comps) \<and>
      distinct (concat comps) \<and>
      (\<forall>p \<in> set seen. p \<in> marked m \<longrightarrow> p \<in> marked v) \<and>
      (\<forall>cells \<in> set comps.
          cells \<noteq> [] \<and> set cells = reach (marked m) {hd cells} \<and> hd cells \<in> set seen \<and>
          (\<forall>q \<in> set cells. q = hd cells \<or> row_major_less (hd cells) q)) \<and>
      sorted_wrt row_major_less (map hd comps))"

text \<open>
  A string has the character r followed by x or y; a string is inert when it has no such
  pair and cannot form one with a neighbour it is appended to.
\<close>

fun has_rxy :: "string \<Rightarrow> bool" where
  "has_rxy [] = False"
| "has_rxy [a] = False"
| "has_rxy (a # b # s) =
     ((a = CHR ''r'' \<and> (b = CHR ''x'' \<or> b = CHR ''y'')) \<or> has_rxy (b # s))"

definition inert :: "string \<Rightarrow> bool" where
  "inert s = (\<not> has_rxy s \<and> (s \<noteq> [] \<longrightarrow> last s \<noteq> CHR ''r'' \<and> hd s \<noteq> CHR ''x'' \<and> hd s \<noteq> CHR ''y''))"

section \<open>Example editors\<close>

definition seed_010 :: editor where
  "seed_010 =
     \<lparr>cols = 3, rows = 3, rule = 30,
      grid = [[Some False, Some True, Some False], [None, None, None], [None, None, None]],
      isAnimating = False, animationRow = 0, roundedCorners = 0, cellSize = 20,
      hasGenerated = False\<rparr>"


definition block_2x2 :: editor where
  "block_2x2 =
     \<lparr>cols = 5, rows = 5, rule = 30,
      grid = [[Some True, Some True, Some False, Some False, Some False],
              [Some True, Some True, Some False, Some False, Some False],
              [Some False, Some False, Some False, Some False, Some False],
              [None, None, None, None, None],
              [None, None, None, None, None]],
      isAnimating = False, animationRow = 3, roundedCorners = 3, cellSize = 10,
      hasGenerated = False\<rparr>"

definition two_shapes :: editor where
  "two_shapes =
     \<lparr>cols = 3, rows = 3, rule = 30,
      grid = [[Some False, Some True, Some False],
              [Some True, Some True, Some False],
              [Some False, Some False, Some True]],
      isAnimating = False, animationRow = 3, roundedCorners = 2, cellSize = 8,
      hasGenerated = True\<rparr>"

section \<open>The rule engine\<close>

subsection \<open>Binary expansion of a rule index\<close>

lemma toStringRadix_small: "n < b \<Longrightarrow> toStringRadix b n = [digit_char n]"
  by (subst toStringRadix.simps) simp

lemma toStringRadix_large:
  "\<not> n < b \<Longrightarrow> 2 \<le> b \<Longrightarrow>
   toStringRadix b n = toStringRadix b (n div b) @ [digit_char (n mod b)]"
  by (subst toStringRadix.simps) simp

lemma toStringRadix_nonempty: "0 < length (toStringRadix b n)"
  by (subst toStringRadix.simps) auto

lemma digit_char_binary:
  assumes "d < 2"
  shows "digit_char d = (if odd d then CHR ''1'' else CHR ''0'')"
proof -
  from assms have "d = 0 \<or> d = 1" by auto
  then show ?thesis by (auto simp: digit_char_def)
qed

lemma binary_length_bound: "n < 2 ^ length (toStringRadix 2 n)"
proof (induction n rule: less_induct)
  case (less n)
  show ?case
  proof (cases "n < 2")
    case True
    then show ?thesis by (simp add: toStringRadix_small)
  next
    case False
    then have "n div 2 < n" by simp
    from less [OF this] have "n < 2 * 2 ^ length (toStringRadix 2 (n div 2))" by linarith
    then show ?thesis using False by (simp add: toStringRadix_large)
  qed
qed

lemma binary_length_le: "n < 2 ^ k \<Longrightarrow> 0 < k \<Longrightarrow> length (toStringRadix 2 n) \<le> k"
proof (induction k arbitrary: n)
  case 0
  then show ?case by simp
next
  case (Suc k)
  show ?case
  proof (cases "n < 2")
    case True
    then show ?thesis by (simp add: toStringRadix_small)
  next
    case False
    with Suc.prems have k: "0 < k" by (cases k) auto
    from Suc.prems have "n div 2 < 2 ^ k" by auto
    from Suc.IH [OF this k] show ?thesis using False by (simp add: toStringRadix_large)
  qed
qed

lemma binary_digit:
  "i < length (toStringRadix 2 n) \<Longrightarrow>
   toStringRadix 2 n ! i =
     (if odd (n div 2 ^ (length (toStringRadix 2 n) - 1 - i)) then CHR ''1'' else CHR ''0'')"
proof (induction n arbitrary: i rule: less_induct)
  case (less n)
  show ?case
  proof (cases "n < 2")
    case True
    then show ?thesis using less.prems
      by (simp add: toStringRadix_small digit_char_binary)
  next
    case False
    let ?s = "toStringRadix 2 (n div 2)"
    from False have d: "n div 2 < n" by simp
    have e: "toStringRadix 2 n = ?s @ [digit_char (n mod 2)]"
      using False by (simp add: toStringRadix_large)
    show ?thesis
    proof (cases "i < length ?s")
      case True
      have "length ?s - i = Suc (length ?s - Suc i)"
        using True by simp
      then have "n div 2 ^ (length ?s - i) = n div 2 div 2 ^ (length ?s - Suc i)"
        by (simp add: div_mult2_eq)
      with less.IH [OF d True] show ?thesis using True
        by (simp add: e nth_append)
    next
      case False
      with less.prems have "i = length ?s" by (simp add: e)
      then show ?thesis by (simp add: e nth_append digit_char_binary)
    qed
  qed
qed

lemma padded_binary_length:
  assumes "n < 256"
  shows "length (padStart 8 (CHR ''0'') (toStringRadix 2 n)) = 8"
proof -
  have "length (toStringRadix 2 n) \<le> 8" using binary_length_le [of n 8] assms by simp
  then show ?thesis by (simp add: padStart_def)
qed

lemma padded_binary_digit:
  assumes "n < 256" "i < 8"
  shows "padStart 8 (CHR ''0'') (toStringRadix 2 n) ! i =
         (if odd (n div 2 ^ (7 - i)) then CHR ''1'' else CHR ''0'')"
proof -
  let ?s = "toStringRadix 2 n"
  have len: "length ?s \<le> 8" using binary_length_le [of n 8] assms by simp
  have pos: "0 < length ?s" by (rule toStringRadix_nonempty)
  show ?thesis
  proof (cases "i < 8 - length ?s")
    case True
    have "n < 2 ^ length ?s" by (rule binary_length_bound)
    also have "\<dots> \<le> 2 ^ (7 - i)" using True by (intro power_increasing) auto
    finally have "n div 2 ^ (7 - i) = 0" by simp
    then show ?thesis using True len by (simp add: padStart_def nth_append)
  next
    case False
    then have j: "i - (8 - length ?s) < length ?s" using assms len pos by linarith
    have "length ?s - 1 - (i - (8 - length ?s)) = 7 - i" using False len pos assms by linarith
    with binary_digit [OF j] show ?thesis using False len assms
      by (simp add: padStart_def nth_append)
  qed
qed

lemma lookup_getRuleLookup:
  assumes "i < 8"
  shows "lookup (getRuleLookup n) (patterns ! i) =
         Some (char_is (padStart 8 (CHR ''0'') (toStringRadix 2 n)) i (CHR ''1''))"
proof -
  from assms have "i = 0 \<or> i = 1 \<or> i = 2 \<or> i = 3 \<or> i = 4 \<or> i = 5 \<or> i = 6 \<or> i = 7"
    by linarith
  then show ?thesis
    by (elim disjE) (simp_all add: getRuleLookup_def lookup_def patterns_def Let_def)
qed

lemma keys_getRuleLookup: "map fst (getRuleLookup n) = patterns"
  by (simp add: getRuleLookup_def patterns_def Let_def)

text \<open>
  C1. For a rule index in [0,255] the table has the eight patterns as its keys, in the
  order 111, 110, ..., 000; the binary string it is read from has exactly 8 characters,
  character \<open>i\<close> being the bit of weight \<open>2 ^ (7 - i)\<close> of the rule index (most significant
  first, zero padded); and pattern \<open>patterns ! i\<close> is bound to that bit.
\<close>

theorem getRuleLookup_binds_bits:
  assumes "ruleNumber \<le> 255" and "i < 8"
  shows "map fst (getRuleLookup ruleNumber) = patterns \<and>
         length (padStart 8 (CHR ''0'') (toStringRadix 2 ruleNumber)) = 8 \<and>
         padStart 8 (CHR ''0'') (toStringRadix 2 ruleNumber) ! i =
           (if odd (ruleNumber div 2 ^ (7 - i)) then CHR ''1'' else CHR ''0'') \<and>
         lookup (getRuleLookup ruleNumber) (patterns ! i) =
           Some (odd (ruleNumber div 2 ^ (7 - i)))"
proof -
  from assms have n: "ruleNumber < 256" by simp
  have "char_is (padStart 8 (CHR ''0'') (toStringRadix 2 ruleNumber)) i (CHR ''1'') =
        odd (ruleNumber div 2 ^ (7 - i))"
    using padded_binary_length [OF n] padded_binary_digit [OF n assms(2)] assms(2)
    by (simp add: char_is_def)
  then show ?thesis
    using padded_binary_length [OF n] padded_binary_digit [OF n assms(2)]
    by (simp add: keys_getRuleLookup lookup_getRuleLookup [OF assms(2)])
qed

theorem getRuleLookup_binds_bits_witness:
  "(30::nat) \<le> 255 \<and> (3::nat) < 8 \<and>
   map fst (getRuleLookup 30) = patterns \<and>
   padStart 8 (CHR ''0'') (toStringRadix 2 30) ! 3 = CHR ''1'' \<and>
   lookup (getRuleLookup 30) ''100'' = Some True \<and>
   lookup (getRuleLookup 30) ''111'' = Some False"
  using getRuleLookup_binds_bits [of 30 3] getRuleLookup_binds_bits [of 30 0]
  by (simp add: patterns_def)

subsection \<open>Stepping a row\<close>

lemma js_index_nat: "js_index xs (int i) = (if i < length xs then xs ! i else None)"
  by (simp add: js_index_def)

lemma bit_char_or_false: "bit_char (or_false v) = bit_char v"
  by (simp add: bit_char_def or_false_def truthy_def)

lemma bit_char_None: "bit_char None = CHR ''0''"
  by (simp add: bit_char_def truthy_def)

lemma length_applyRule: "length (applyRule prevRow tbl) = length prevRow"
  by (simp add: applyRule_def)

text \<open>
  C2. Cell \<open>i\<close> of the next row is looked up under the pattern left-centre-right of the
  previous row, where the left neighbour of index 0 and the right neighbour of the last
  index are the character 0 whatever the row holds: no value of the opposite edge enters
  the pattern.
\<close>

theorem applyRule_boundary:
  assumes "i < length prevRow"
  shows "applyRule prevRow tbl ! i =
         lookup tbl
           [if i = 0 then CHR ''0'' else bit_char (prevRow ! (i - 1)),
            bit_char (prevRow ! i),
            if Suc i = length prevRow then CHR ''0'' else bit_char (prevRow ! Suc i)]"
proof -
  have left: "bit_char (or_false (js_index prevRow (int i - 1))) =
              (if i = 0 then CHR ''0'' else bit_char (prevRow ! (i - 1)))"
  proof (cases i)
    case 0
    then show ?thesis by (simp add: js_index_def bit_char_or_false bit_char_None)
  next
    case (Suc j)
    then have "int i - 1 = int j" by simp
    then show ?thesis using Suc assms by (simp add: js_index_nat bit_char_or_false)
  qed
  have right: "bit_char (or_false (js_index prevRow (int i + 1))) =
               (if Suc i = length prevRow then CHR ''0'' else bit_char (prevRow ! Suc i))"
  proof -
    have e: "int i + 1 = int (Suc i)" by simp
    have "js_index prevRow (int i + 1) = (if Suc i < length prevRow then prevRow ! Suc i else None)"
      unfolding e by (rule js_index_nat)
    then show ?thesis using assms by (auto simp: bit_char_or_false bit_char_None)
  qed
  have center: "js_index prevRow (int i) = prevRow ! i"
    using assms by (simp add: js_index_nat)
  show ?thesis
    using assms by (simp add: applyRule_def Let_def left right center del: of_nat_Suc)
qed

theorem applyRule_boundary_witness:
  "0 < length [Some True, Some False, Some True] \<and>
   applyRule [Some True, Some False, Some True] (getRuleLookup 30) ! 0 =
     lookup (getRuleLookup 30) ''010'' \<and>
   applyRule [Some True, Some False, Some True] (getRuleLookup 30) ! 2 =
     lookup (getRuleLookup 30) ''010''"
  using applyRule_boundary [of 0 "[Some True, Some False, Some True]" "getRuleLookup 30"]
    applyRule_boundary [of 2 "[Some True, Some False, Some True]" "getRuleLookup 30"]
  by (simp add: bit_char_def truthy_def)

subsection \<open>Generating the grid row by row\<close>

lemma generate_batch_Suc:
  "generate_batch seed tbl (Suc k) =
   generate_batch seed tbl k @ [((\<lambda>row. applyRule row tbl) ^^ k) seed]"
  by (simp add: generate_batch_def)

lemma generate_batch_nth:
  "j < k \<Longrightarrow> generate_batch seed tbl k ! j = ((\<lambda>row. applyRule row tbl) ^^ j) seed"
  by (simp add: generate_batch_def)

lemma setGridRow_step:
  assumes "0 < k" "k \<le> length g" "take k g = generate_batch seed tbl k"
  shows "\<exists>g'. setGridRow k tbl g = Inr g' \<and> take (Suc k) g' = generate_batch seed tbl (Suc k)
          \<and> length g' = max (length g) (Suc k)"
proof -
  obtain j where j: "k = Suc j" using assms(1) by (cases k) auto
  have "g ! j = take k g ! j" using j by simp
  also have "\<dots> = ((\<lambda>row. applyRule row tbl) ^^ j) seed"
    using assms(3) j by (simp add: generate_batch_nth)
  finally have row: "applyRule (g ! (k - 1)) tbl = ((\<lambda>row. applyRule row tbl) ^^ k) seed"
    using j by simp
  show ?thesis
  proof (cases "k < length g")
    case True
    then have "take (Suc k) (g[k := applyRule (g ! (k - 1)) tbl]) =
               take k g @ [applyRule (g ! (k - 1)) tbl]"
      by (simp add: take_Suc_conv_app_nth)
    then show ?thesis using True assms row
      by (simp add: setGridRow_def Let_def generate_batch_Suc)
  next
    case False
    then have "k = length g" using assms by simp
    then show ?thesis using assms row
      by (simp add: setGridRow_def Let_def generate_batch_Suc)
  qed
qed

lemma animate_rows:
  assumes "0 < k" "k \<le> length (grid st)" "take k (grid st) = generate_batch seed tbl k"
  shows "\<exists>st'. animate tbl k st = Inr st' \<and>
           take (max k (rows st)) (grid st') = generate_batch seed tbl (max k (rows st)) \<and>
           length (grid st') = max (length (grid st)) (rows st) \<and>
           hasGenerated st' \<and> \<not> isAnimating st'"
  using assms
proof (induction tbl k st rule: animate.induct)
  case (1 tbl k st)
  show ?case
  proof (cases "rows st \<le> k")
    case True
    then have "max k (rows st) = k" by simp
    then show ?thesis using True 1(2-)
      by (subst animate.simps) simp
  next
    case False
    from setGridRow_step [OF 1(2) 1(3) 1(4)]
    obtain g' where g': "setGridRow k tbl (grid st) = Inr g'"
      "take (Suc k) g' = generate_batch seed tbl (Suc k)" "length g' = max (length (grid st)) (Suc k)"
      by blast
    let ?st = "st\<lparr>grid := g', animationRow := k + 1\<rparr>"
    have "\<exists>st'. animate tbl (k + 1) ?st = Inr st' \<and>
           take (max (k + 1) (rows ?st)) (grid st') = generate_batch seed tbl (max (k + 1) (rows ?st)) \<and>
           length (grid st') = max (length (grid ?st)) (rows ?st) \<and>
           hasGenerated st' \<and> \<not> isAnimating st'"
      using False g' by (intro 1(1)) auto
    moreover have "max (k + 1) (rows st) = max k (rows st)" using False by simp
    moreover have "max (max (length (grid st)) (Suc k)) (rows st) = max (length (grid st)) (rows st)"
      using False by simp
    ultimately show ?thesis using False g'
      by (subst animate.simps) auto
  qed
qed

lemma animate_from_seed:
  assumes "grid st \<noteq> []"
  shows "\<exists>st'. animate tbl 1 st = Inr st' \<and>
           take (rows st) (grid st') = generate_batch (grid st ! 0) tbl (rows st) \<and>
           length (grid st') = max (length (grid st)) (rows st)"
proof -
  have "take 1 (grid st) = generate_batch (grid st ! 0) tbl 1"
    using assms by (cases "grid st") (simp_all add: generate_batch_def)
  moreover have "1 \<le> length (grid st)" using assms by (cases "grid st") simp_all
  ultimately obtain st' where st': "animate tbl 1 st = Inr st'"
    "take (max 1 (rows st)) (grid st') = generate_batch (grid st ! 0) tbl (max 1 (rows st))"
    "length (grid st') = max (length (grid st)) (rows st)"
    using animate_rows [of 1 st "grid st ! 0" tbl] by auto
  have "take (rows st) (grid st') = generate_batch (grid st ! 0) tbl (rows st)"
  proof (cases "rows st")
    case 0
    then show ?thesis by (simp add: generate_batch_def)
  next
    case (Suc n)
    then show ?thesis using st'(2) by simp
  qed
  then show ?thesis using st' by blast
qed

lemma batch_seed_010:
  "generate_batch [Some False, Some True, Some False] (getRuleLookup 30) 3 =
   [[Some False, Some True, Some False],
    [Some True, Some True, Some True],
    [Some True, Some False, Some False]]"
  by code_simp

text \<open>
  C9. Run from a grid whose row 0 is the seed, the animation loop (one call of
  \<^verbatim>\<open>applyRule\<close> on the preceding row per step) ends without an error, and the first
  \<^verbatim>\<open>rows\<close> rows of its grid are the rows of the batch computation: row \<open>k\<close> is \<^verbatim>\<open>applyRule\<close>
  applied \<open>k\<close> times to the seed. The grid keeps its length when it had \<^verbatim>\<open>rows\<close> rows, so
  that the whole grid is then the batch result.
\<close>

theorem animate_equals_batch:
  assumes "grid st \<noteq> []"
  shows "\<exists>st'. animate tbl 1 st = Inr st' \<and>
           take (rows st) (grid st') = generate_batch (grid st ! 0) tbl (rows st) \<and>
           length (grid st') = max (length (grid st)) (rows st) \<and>
           (length (grid st) = rows st \<longrightarrow>
              grid st' = generate_batch (grid st ! 0) tbl (rows st))"
proof -
  from animate_from_seed [OF assms, of tbl]
  obtain st' where st': "animate tbl 1 st = Inr st'"
    "take (rows st) (grid st') = generate_batch (grid st ! 0) tbl (rows st)"
    "length (grid st') = max (length (grid st)) (rows st)"
    by blast
  have "grid st' = generate_batch (grid st ! 0) tbl (rows st)" if "length (grid st) = rows st"
  proof -
    from that st'(3) have "length (grid st') = rows st" by simp
    then have "take (rows st) (grid st') = grid st'" by simp
    with st'(2) show ?thesis by simp
  qed
  with st' show ?thesis by blast
qed

theorem animate_equals_batch_witness:
  "grid seed_010 \<noteq> [] \<and> length (grid seed_010) = rows seed_010 \<and>
   (\<exists>st'. animate (getRuleLookup 30) 1 seed_010 = Inr st' \<and>
      grid st' = [[Some False, Some True, Some False],
                  [Some True, Some True, Some True],
                  [Some True, Some False, Some False]])"
  using animate_equals_batch [of seed_010 "getRuleLookup 30"]
  by (auto simp: seed_010_def batch_seed_010)

subsection \<open>Rule indices out of range\<close>



lemma filteredRules_range: "r \<in> set (filteredRules q) \<Longrightarrow> r \<le> 255"
  by (auto simp: filteredRules_def)





section \<open>The vector exporter\<close>

subsection \<open>The text of numbers and elements\<close>

lemma has_rxy_append:
  "has_rxy (xs @ ys) =
   (has_rxy xs \<or> has_rxy ys \<or>
    (xs \<noteq> [] \<and> ys \<noteq> [] \<and> last xs = CHR ''r'' \<and> (hd ys = CHR ''x'' \<or> hd ys = CHR ''y'')))"
proof (induction xs rule: has_rxy.induct)
  case 1
  then show ?case by simp
next
  case (2 a)
  then show ?case by (cases ys) auto
next
  case (3 a b s)
  then show ?case by auto
qed

lemma inert_append: "inert xs \<Longrightarrow> inert ys \<Longrightarrow> inert (xs @ ys)"
  by (auto simp: inert_def has_rxy_append hd_append last_append)

lemma inert_Nil: "inert []"
  by (simp add: inert_def)

lemma inert_concat: "(\<And>xs. xs \<in> set xss \<Longrightarrow> inert xs) \<Longrightarrow> inert (concat xss)"
  by (induction xss) (simp_all add: inert_Nil inert_append)

lemma includes_r_has_rxy:
  assumes "string_includes s (CHR ''r'' # b # t)" "b = CHR ''x'' \<or> b = CHR ''y''"
  shows "has_rxy s"
  using assms(1)
proof (induction s)
  case Nil
  then show ?case by simp
next
  case (Cons a s)
  show ?case
  proof (cases "take (length (CHR ''r'' # b # t)) (a # s) = CHR ''r'' # b # t")
    case True
    then obtain s' where "a # s = CHR ''r'' # b # s'"
      by (cases s) auto
    then show ?thesis using assms(2) by auto
  next
    case False
    with Cons.prems have "string_includes s (CHR ''r'' # b # t)" by auto
    then have "has_rxy s" by (rule Cons.IH)
    then show ?thesis by (cases s) auto
  qed
qed

lemma digit_char_set: "d < 10 \<Longrightarrow> digit_char d \<in> set ''0123456789''"
  unfolding digit_char_def by (rule nth_mem) simp

lemma num_digits: "set (num n) \<subseteq> set ''0123456789''"
  unfolding num_def
proof (induction n rule: less_induct)
  case (less n)
  show ?case
  proof (cases "n < 10")
    case True
    then show ?thesis using digit_char_set [of n] by (simp add: toStringRadix_small)
  next
    case False
    then have "n div 10 < n" by simp
    from less [OF this] digit_char_set [of "n mod 10"] show ?thesis
      using False by (simp add: toStringRadix_large)
  qed
qed

lemma no_r_inert:
  assumes "set s \<subseteq> set ''0123456789''"
  shows "inert s"
proof -
  have "\<not> has_rxy s" using assms
  proof (induction s rule: has_rxy.induct)
    case (3 a b s)
    then show ?case by auto
  qed simp_all
  moreover have "last s \<noteq> CHR ''r'' \<and> hd s \<noteq> CHR ''x'' \<and> hd s \<noteq> CHR ''y''" if "s \<noteq> []"
  proof -
    from that have "last s \<in> set s" "hd s \<in> set s" by simp_all
    with assms show ?thesis by auto
  qed
  ultimately show ?thesis by (simp add: inert_def)
qed

lemma inert_num: "inert (num n)"
  by (rule no_r_inert) (rule num_digits)

lemma inert_rect_plain: "inert (rect_plain x y w h)"
  unfolding rect_plain_def
  by (intro inert_append inert_num) (simp_all add: inert_def)

lemma inert_svg_document: "inert body \<Longrightarrow> inert (svg_document w h body)"
  unfolding svg_document_def
  by (intro inert_append inert_num) (simp_all add: inert_def)

lemma inert_no_attribute:
  assumes "inert s"
  shows "\<not> string_includes s ''rx='' \<and> \<not> string_includes s ''ry=''"
  using assms includes_r_has_rxy [of s "CHR ''x''" "''=''"] includes_r_has_rxy [of s "CHR ''y''" "''=''"]
  by (auto simp: inert_def)

lemma digit_char_value:
  assumes "d < 10"
  shows "of_char (digit_char d) - 48 = d \<and> (0 < d \<longrightarrow> digit_char d \<noteq> CHR ''0'')"
proof -
  from assms
  have "d = 0 \<or> d = 1 \<or> d = 2 \<or> d = 3 \<or> d = 4 \<or> d = 5 \<or> d = 6 \<or> d = 7 \<or> d = 8 \<or> d = 9"
    by arith
  then show ?thesis by (elim disjE) (simp_all add: digit_char_def)
qed

lemma num_no_leading_zero: "0 < n \<Longrightarrow> hd (num n) \<noteq> CHR ''0''"
  unfolding num_def
proof (induction n rule: less_induct)
  case (less n)
  show ?case
  proof (cases "n < 10")
    case True
    then show ?thesis using less.prems digit_char_value [of n] by (simp add: toStringRadix_small)
  next
    case False
    then have "n div 10 < n" "0 < n div 10" by simp_all
    from less.IH [OF this] toStringRadix_nonempty [of 10 "n div 10"] show ?thesis
      using False by (simp add: toStringRadix_large hd_append)
  qed
qed

lemma num_fold: "foldl (\<lambda>a ch. 10 * a + (of_char ch - 48)) 0 (num n) = n"
  unfolding num_def
proof (induction n rule: less_induct)
  case (less n)
  show ?case
  proof (cases "n < 10")
    case True
    then show ?thesis using digit_char_value [of n] by (simp add: toStringRadix_small)
  next
    case False
    then have "n div 10 < n" by simp
    from less.IH [OF this] digit_char_value [of "n mod 10"] show ?thesis
      using False by (simp add: toStringRadix_large)
  qed
qed

lemma decimal_num: "decimal_value (num n) = Some n"
proof -
  have ne: "num n \<noteq> []" using toStringRadix_nonempty [of 10 n] by (simp add: num_def)
  have dig: "list_all (\<lambda>ch. ch \<in> set ''0123456789'') (num n)"
    using num_digits [of n] unfolding list_all_iff by blast
  have lead: "length (num n) = 1 \<or> hd (num n) \<noteq> CHR ''0''"
  proof (cases "n < 10")
    case True
    then show ?thesis by (simp add: num_def toStringRadix_small)
  next
    case False
    then show ?thesis using num_no_leading_zero [of n] by simp
  qed
  show ?thesis
    unfolding decimal_value_def using ne dig lead num_fold [of n] by (simp only: if_True simp_thms)
qed

lemma svg_document_text:
  \<open>\<exists>Wd Hd. decimal_value Wd = Some w \<and> decimal_value Hd = Some h \<and>
     svg_document w h body = ''<svg width="'' @ Wd @ ''" height="'' @ Hd @ ''" xmlns="http://www.w3.org/2000/svg">'' @ body @ ''</svg>''\<close>
  by (intro exI [of _ "num w"] exI [of _ "num h"]) (simp add: decimal_num svg_document_def)

lemma rect_rounded_text:
  \<open>\<exists>X Y W H R. decimal_value X = Some x \<and> decimal_value Y = Some y \<and>
     decimal_value W = Some w \<and> decimal_value H = Some h \<and> decimal_value R = Some rc \<and>
     rect_rounded x y w h rc = ''<rect x="'' @ X @ ''" y="'' @ Y @ ''" width="'' @ W @ ''" height="'' @ H @ ''" rx="'' @ R @ ''" ry="'' @ R @ ''" fill="#000"/>''\<close>
  by (intro exI [of _ "num x"] exI [of _ "num y"] exI [of _ "num w"] exI [of _ "num h"]
        exI [of _ "num rc"])
    (simp add: decimal_num rect_rounded_def)

lemma rect_plain_text:
  \<open>\<exists>X Y S. decimal_value X = Some x \<and> decimal_value Y = Some y \<and> decimal_value S = Some s \<and>
     rect_plain x y s s = ''<rect x="'' @ X @ ''" y="'' @ Y @ ''" width="'' @ S @ ''" height="'' @ S @ ''" fill="#000"/>''\<close>
  by (intro exI [of _ "num x"] exI [of _ "num y"] exI [of _ "num s"])
    (simp add: decimal_num rect_plain_def)

lemma plain_texts:
  \<open>list_all2
     (\<lambda>t (r, c). \<exists>X Y S.
        decimal_value X = Some (c * cs) \<and>
        decimal_value Y = Some (r * cs) \<and>
        decimal_value S = Some cs \<and>
        t = ''<rect x="'' @ X @ ''" y="'' @ Y @ ''" width="'' @ S @ ''" height="'' @ S @ ''" fill="#000"/>'')
     (map (\<lambda>(r, c). rect_plain (c * cs) (r * cs) cs cs) ps) ps\<close>
  unfolding list_all2_map1 list_all2_same using rect_plain_text by auto

subsection \<open>The two scans\<close>

lemma foldl_append_concat:
  "foldl (\<lambda>acc x. acc @ f x) a xs = a @ concat (map f xs)"
  by (induction xs arbitrary: a) simp_all

lemma scanComponents_Cons:
  "scanComponents nrows ncols m (p # todo) visited comps =
   (case scan_cell nrows ncols m p visited of
      Inl e \<Rightarrow> Inl e
    | Inr (v', new) \<Rightarrow> scanComponents nrows ncols m todo v' (comps @ new))"
  by (cases p) (simp add: scan_cell_def split: sum.splits prod.splits)

lemma scanPath_Cons:
  "scanPath nrows ncols cs rc m (p # todo) visited path =
   (case scan_cell nrows ncols m p visited of
      Inl e \<Rightarrow> Inl e
    | Inr (v', new) \<Rightarrow>
        scanPath nrows ncols cs rc m todo v' (path @ concat (map (bbox_rect cs rc) new)))"
  by (cases p) (simp add: scan_cell_def split: sum.splits prod.splits)

lemma scanComponents_acc:
  "scanComponents nrows ncols m todo visited comps =
   (case scanComponents nrows ncols m todo visited [] of
      Inl e \<Rightarrow> Inl e
    | Inr (v', new) \<Rightarrow> Inr (v', comps @ new))"
proof (induction todo arbitrary: visited comps)
  case Nil
  then show ?case by simp
next
  case (Cons p todo)
  show ?case
  proof (cases "scan_cell nrows ncols m p visited")
    case (Inl e)
    then show ?thesis by (simp add: scanComponents_Cons)
  next
    case (Inr res)
    obtain v' new where res: "res = (v', new)" by (cases res)
    show ?thesis
      using Cons.IH [of v' "comps @ new"] Cons.IH [of v' new]
      by (simp add: scanComponents_Cons Inr res split: sum.splits prod.splits)
  qed
qed

lemma scanPath_components:
  "scanPath nrows ncols cs rc m todo visited path =
   (case scanComponents nrows ncols m todo visited [] of
      Inl e \<Rightarrow> Inl e
    | Inr (v', new) \<Rightarrow> Inr (v', path @ concat (map (bbox_rect cs rc) new)))"
proof (induction todo arbitrary: visited path)
  case Nil
  then show ?case by simp
next
  case (Cons p todo)
  show ?case
  proof (cases "scan_cell nrows ncols m p visited")
    case (Inl e)
    then show ?thesis by (simp add: scanComponents_Cons scanPath_Cons)
  next
    case (Inr res)
    obtain v' new where res: "res = (v', new)" by (cases res)
    show ?thesis
      using Cons.IH [of v' "path @ concat (map (bbox_rect cs rc) new)"]
        scanComponents_acc [of nrows ncols m todo v' new]
      by (simp add: scanComponents_Cons scanPath_Cons Inr res split: sum.splits prod.splits)
  qed
qed

lemma component_rect_bbox: "component_rect cs rc cells = bbox_rect cs rc cells"
proof (cases "length cells = 1")
  case True
  then obtain r c where "cells = [(r, c)]"
    by (cases cells) auto
  then show ?thesis by (simp add: component_rect_def bbox_rect_def)
next
  case False
  then show ?thesis by (simp add: component_rect_def)
qed

lemma forEach_components:
  "foldl (\<lambda>paths component. paths @ component_rect cs rc component) [] comps =
   concat (map (bbox_rect cs rc) comps)"
  by (simp add: foldl_append_concat component_rect_bbox)

text \<open>
  C10. The two versions of \<^verbatim>\<open>generateSVG\<close> return the same string for every state of the
  editor: the second one's rectangle for a component of one cell is the rectangle of its
  bounding box.
\<close>

theorem generateSVG_versions_equal: "generateSVG_v2 st = generateSVG st"
proof (cases "0 < roundedCorners st")
  case False
  then show ?thesis by (simp add: generateSVG_v2_def generateSVG_def Let_def)
next
  case True
  let ?scan = "scanComponents (rows st) (cols st) (build_matrix (grid st) (rows st) (cols st))
                 (scan_order (rows st) (cols st))
                 (replicate (rows st) (replicate (cols st) False)) []"
  show ?thesis
  proof (cases ?scan)
    case (Inl e)
    then show ?thesis using True
      by (simp add: generateSVG_v2_def generateSVG_def Let_def scanPath_components)
  next
    case (Inr res)
    obtain v comps where res: "res = (v, comps)" by (cases res)
    show ?thesis using True
      by (simp add: generateSVG_v2_def generateSVG_def Let_def scanPath_components Inr res
          forEach_components)
  qed
qed

subsection \<open>Reachability\<close>

lemma adj4_sym: "adj4 p q \<Longrightarrow> adj4 q p"
  by (cases p, cases q) auto

lemma reach_subset: "reach A S \<subseteq> A"
proof
  fix p assume "p \<in> reach A S"
  then show "p \<in> A" by induction
qed

lemma reach_empty: "reach A {} = {}"
proof -
  have "p \<notin> reach A {}" for p
  proof
    assume "p \<in> reach A {}"
    then show False by induction auto
  qed
  then show ?thesis by auto
qed

lemma reach_mono:
  assumes "A \<subseteq> B" "S \<subseteq> T"
  shows "reach A S \<subseteq> reach B T"
proof
  fix p assume "p \<in> reach A S"
  then show "p \<in> reach B T"
  proof induction
    case (start p)
    then show ?case using assms by (auto intro: reach.start)
  next
    case (step p q)
    then show ?case using assms by (auto intro: reach.step)
  qed
qed

lemma reach_skip:
  assumes "p \<notin> A"
  shows "reach A (insert p S) = reach A S"
proof
  show "reach A (insert p S) \<subseteq> reach A S"
  proof
    fix q assume "q \<in> reach A (insert p S)"
    then show "q \<in> reach A S"
    proof induction
      case (start q)
      then show ?case using assms by (auto intro: reach.start)
    next
      case (step q q')
      then show ?case by (auto intro: reach.step)
    qed
  qed
  show "reach A S \<subseteq> reach A (insert p S)"
    by (rule reach_mono) auto
qed

lemma reach_visit:
  assumes p: "p \<in> A"
    and N: "\<And>q. q \<in> A \<Longrightarrow> q \<noteq> p \<Longrightarrow> (q \<in> N) = adj4 p q"
  shows "reach A (insert p S) = insert p (reach (A - {p}) (N \<union> S))"
proof (intro equalityI subsetI)
  fix x assume "x \<in> reach A (insert p S)"
  then show "x \<in> insert p (reach (A - {p}) (N \<union> S))"
  proof induction
    case (start x)
    then show ?case by (auto intro: reach.start)
  next
    case (step x q)
    show ?case
    proof (cases "q = p")
      case True
      then show ?thesis by simp
    next
      case False
      show ?thesis
      proof (cases "x = p")
        case True
        with step False have "q \<in> N" using N by simp
        then have "q \<in> reach (A - {p}) (N \<union> S)"
          using step False by (auto intro: reach.start)
        then show ?thesis by simp
      next
        case xp: False
        with step have "x \<in> reach (A - {p}) (N \<union> S)" by simp
        then have "q \<in> reach (A - {p}) (N \<union> S)"
          using step False by (auto intro: reach.step)
        then show ?thesis by simp
      qed
    qed
  qed
next
  fix x assume x: "x \<in> insert p (reach (A - {p}) (N \<union> S))"
  have pr: "p \<in> reach A (insert p S)" using p by (auto intro: reach.start)
  have "y \<in> reach A (insert p S)" if "y \<in> reach (A - {p}) (N \<union> S)" for y
    using that
  proof induction
    case (start y)
    show ?case
    proof (cases "y \<in> N")
      case True
      with start have "adj4 p y" using N by simp
      with pr start show ?thesis by (auto intro: reach.step)
    next
      case False
      with start show ?thesis by (auto intro: reach.start)
    qed
  next
    case (step y q)
    then show ?case by (auto intro: reach.step)
  qed
  with x pr show "x \<in> reach A (insert p S)" by blast
qed

lemma reach_sym:
  assumes "q \<in> reach A {p}"
  shows "p \<in> reach A {q}"
proof -
  from assms show ?thesis
  proof induction
    case (start x)
    then show ?case by (auto intro: reach.start)
  next
    case (step x y)
    have xA: "x \<in> A" using step(1) reach_subset by auto
    have "x \<in> reach A {y}"
      using step(2) xA adj4_sym [OF step(3)] by (auto intro: reach.start reach.step)
    moreover have "z \<in> reach A {y}" if "z \<in> reach A {x}" for z
      using that
    proof induction
      case (start z)
      then show ?case using \<open>x \<in> reach A {y}\<close> by simp
    next
      case (step z w)
      then show ?case by (auto intro: reach.step)
    qed
    ultimately show ?case using step.IH by blast
  qed
qed

lemma reach_trans:
  assumes "q \<in> reach A {p}" "z \<in> reach A {q}"
  shows "z \<in> reach A {p}"
  using assms(2)
proof induction
  case (start z)
  then show ?case using assms(1) by simp
next
  case (step z w)
  then show ?case by (auto intro: reach.step)
qed

lemma reach_same:
  assumes "q \<in> reach A {p}"
  shows "reach A {q} = reach A {p}"
  using assms reach_sym reach_trans by blast

subsection \<open>Matrices and the stack\<close>

lemma cell_at_mark:
  assumes "r < length v"
  shows "(r' < length (mark v r c) \<and> cell_at (mark v r c) r' c') =
         ((r' < length v \<and> cell_at v r' c') \<or> (r' = r \<and> c' = c))"
proof (cases "r' = r")
  case False
  then show ?thesis by (auto simp: mark_def cell_at_def)
next
  case True
  show ?thesis
  proof (cases "c < length (v ! r)")
    case True
    then show ?thesis using \<open>r' = r\<close> assms
      by (auto simp: mark_def cell_at_def nth_list_update)
  next
    case False
    then show ?thesis using \<open>r' = r\<close> assms
      by (auto simp: mark_def cell_at_def nth_append Let_def)
  qed
qed

lemma marked_mark: "r < length v \<Longrightarrow> marked (mark v r c) = insert (r, c) (marked v)"
  using cell_at_mark [of r v] by (auto simp: marked_def)

lemma length_mark: "length (mark v r c) = length v"
  by (simp add: mark_def)

lemma wf_mark:
  assumes "wf_matrix nrows ncols v" "r < nrows" "c < ncols"
  shows "wf_matrix nrows ncols (mark v r c)"
proof -
  from assms have "length (v ! r) = ncols" by (simp add: wf_matrix_def)
  with assms(3) have "mark v r c = v[r := (v ! r)[c := True]]"
    by (simp add: mark_def Let_def)
  moreover have "length row = ncols" if "row \<in> set (v[r := (v ! r)[c := True]])" for row
  proof -
    from that set_update_subset_insert [of v r "(v ! r)[c := True]"]
    have "row = (v ! r)[c := True] \<or> row \<in> set v" by auto
    then show ?thesis using assms \<open>length (v ! r) = ncols\<close> by (auto simp: wf_matrix_def)
  qed
  ultimately show ?thesis using assms(1) by (simp add: wf_matrix_def)
qed

lemma marked_bounds:
  assumes "wf_matrix nrows ncols v" "(r, c) \<in> marked v"
  shows "r < nrows \<and> c < ncols"
  using assms by (auto simp: marked_def wf_matrix_def cell_at_def)

lemma stack_cells_Nil: "stack_cells nrows ncols [] = {}"
  by (simp add: stack_cells_def)

lemma stack_cells_Cons:
  "stack_cells nrows ncols ((a, b) # stack) =
   (if 0 \<le> a \<and> a < int nrows \<and> 0 \<le> b \<and> b < int ncols
    then insert (nat a, nat b) (stack_cells nrows ncols stack)
    else stack_cells nrows ncols stack)"
  by (auto simp: stack_cells_def)

lemma stack_cells_append:
  "stack_cells nrows ncols (xs @ ys) = stack_cells nrows ncols xs \<union> stack_cells nrows ncols ys"
  by (auto simp: stack_cells_def)

lemma stack_cells_member:
  assumes "r' < nrows" "c' < ncols"
  shows "((r', c') \<in> stack_cells nrows ncols stack) = ((int r', int c') \<in> set stack)"
proof
  assume "(r', c') \<in> stack_cells nrows ncols stack"
  then obtain a b where ab: "(a, b) \<in> set stack" "0 \<le> a" "0 \<le> b" "r' = nat a" "c' = nat b"
    unfolding stack_cells_def by blast
  then have "int r' = a" "int c' = b" by simp_all
  with ab(1) show "(int r', int c') \<in> set stack" by simp
next
  assume "(int r', int c') \<in> set stack"
  moreover have "0 \<le> int r'" "int r' < int nrows" "0 \<le> int c'" "int c' < int ncols"
    using assms by simp_all
  moreover have "r' = nat (int r')" "c' = nat (int c')" by simp_all
  ultimately show "(r', c') \<in> stack_cells nrows ncols stack"
    unfolding stack_cells_def by blast
qed

lemma stack_cells_neighbours:
  assumes "r' < nrows" "c' < ncols"
  shows "((r', c') \<in> stack_cells nrows ncols
            [(int r, int c + 1), (int r, int c - 1), (int r + 1, int c), (int r - 1, int c)])
         = adj4 (r, c) (r', c')"
proof -
  have "((int r', int c') \<in> set [(int r, int c + 1), (int r, int c - 1), (int r + 1, int c), (int r - 1, int c)])
        = adj4 (r, c) (r', c')"
    by (simp del: of_nat_Suc) linarith
  then show ?thesis by (simp only: stack_cells_member [OF assms])
qed

subsection \<open>The flood fill\<close>

lemma flood_post_skip:
  assumes post: "flood_post nrows ncols m v stack cells res"
    and skip: "\<not> (0 \<le> a \<and> a < int nrows \<and> 0 \<le> b \<and> b < int ncols) \<or>
               (nat a, nat b) \<notin> marked m - marked v"
  shows "flood_post nrows ncols m v ((a, b) # stack) cells res"
proof -
  have "reach (marked m - marked v) (stack_cells nrows ncols ((a, b) # stack)) =
        reach (marked m - marked v) (stack_cells nrows ncols stack)"
  proof (cases "0 \<le> a \<and> a < int nrows \<and> 0 \<le> b \<and> b < int ncols")
    case True
    with skip have "(nat a, nat b) \<notin> marked m - marked v" by blast
    then show ?thesis using True by (simp add: stack_cells_Cons reach_skip)
  next
    case False
    then show ?thesis by (simp only: stack_cells_Cons if_False)
  qed
  with post skip show ?thesis
    unfolding flood_post_def by (elim exE conjE, intro exI conjI) auto
qed

lemma flood_post_visit:
  assumes wfm: "wf_matrix nrows ncols m"
    and inb: "r < nrows" "c < ncols"
    and len: "r < length v"
    and p: "(r, c) \<in> marked m - marked v"
    and post: "flood_post nrows ncols m (mark v r c)
                 ((int r, int c + 1) # (int r, int c - 1) # (int r + 1, int c) # (int r - 1, int c) # stack)
                 (cells @ [(r, c)]) res"
  shows "flood_post nrows ncols m v ((int r, int c) # stack) cells res"
proof -
  let ?A = "marked m - marked v"
  let ?N = "stack_cells nrows ncols
              [(int r, int c + 1), (int r, int c - 1), (int r + 1, int c), (int r - 1, int c)]"
  let ?S = "stack_cells nrows ncols stack"
  from post obtain v' new where res: "res = Inr (v', (cells @ [(r, c)]) @ new)"
    and wf': "wf_matrix nrows ncols v'"
    and mk: "marked v' = marked (mark v r c) \<union> set new"
    and dist: "distinct new"
    and new: "set new = reach (marked m - marked (mark v r c))
                 (stack_cells nrows ncols
                   ((int r, int c + 1) # (int r, int c - 1) # (int r + 1, int c) # (int r - 1, int c) # stack))"
    unfolding flood_post_def by blast
  have m1: "marked (mark v r c) = insert (r, c) (marked v)"
    using len by (rule marked_mark)
  have A1: "marked m - marked (mark v r c) = ?A - {(r, c)}"
    by (auto simp: m1)
  have st: "stack_cells nrows ncols
              ((int r, int c + 1) # (int r, int c - 1) # (int r + 1, int c) # (int r - 1, int c) # stack)
            = ?N \<union> ?S"
    using stack_cells_append [of nrows ncols
        "[(int r, int c + 1), (int r, int c - 1), (int r + 1, int c), (int r - 1, int c)]" stack]
    by simp
  have nb: "(q \<in> ?N) = adj4 (r, c) q" if "q \<in> ?A" "q \<noteq> (r, c)" for q
  proof -
    obtain r' c' where q: "q = (r', c')" by (cases q)
    with that have "(r', c') \<in> marked m" by simp
    from marked_bounds [OF wfm this] show ?thesis
      unfolding q by (intro stack_cells_neighbours) simp_all
  qed
  have new': "set new = reach (?A - {(r, c)}) (?N \<union> ?S)"
    by (simp only: new A1 st)
  have sc: "stack_cells nrows ncols ((int r, int c) # stack) = insert (r, c) ?S"
    using inb by (simp add: stack_cells_Cons)
  have "reach ?A (insert (r, c) ?S) = insert (r, c) (reach (?A - {(r, c)}) (?N \<union> ?S))"
    using p nb by (rule reach_visit)
  then have set_new: "set ((r, c) # new) = reach ?A (stack_cells nrows ncols ((int r, int c) # stack))"
    by (simp only: sc new' list.set)
  have "(r, c) \<notin> set new"
    using reach_subset [of "?A - {(r, c)}" "?N \<union> ?S"] unfolding new' by blast
  then have d: "distinct ((r, c) # new)" using dist by simp
  have mk': "marked v' = marked v \<union> set ((r, c) # new)"
    by (auto simp: mk m1)
  have hd_new: "\<forall>a b rest. (int r, int c) # stack = (a, b) # rest \<and>
             0 \<le> a \<and> a < int nrows \<and> 0 \<le> b \<and> b < int ncols \<and>
             (nat a, nat b) \<in> marked m - marked v \<longrightarrow>
           (r, c) # new \<noteq> [] \<and> hd ((r, c) # new) = (nat a, nat b)"
    by auto
  have "res = Inr (v', cells @ ((r, c) # new))" by (simp add: res)
  then show ?thesis
    unfolding flood_post_def using wf' mk' d set_new hd_new by blast
qed

lemma floodFill_correct:
  assumes "wf_matrix nrows ncols m" "wf_matrix nrows ncols v"
  shows "flood_post nrows ncols m v stack cells (floodFill nrows ncols m v stack cells)"
  using assms
proof (induction nrows ncols m v stack cells rule: floodFill.induct)
  case (1 nrows ncols m visited component)
  then show ?case
    by (simp add: flood_post_def floodFill.simps stack_cells_Nil reach_empty)
next
  case (2 nrows ncols m visited cr cc stack component)
  let ?p = "(nat cr, nat cc)"
  show ?case
  proof (cases "cr < 0 \<or> int nrows \<le> cr \<or> cc < 0 \<or> int ncols \<le> cc")
    case True
    then have "floodFill nrows ncols m visited ((cr, cc) # stack) component =
               floodFill nrows ncols m visited stack component"
      by (simp add: floodFill.simps)
    moreover have "flood_post nrows ncols m visited stack component
                     (floodFill nrows ncols m visited stack component)"
      using True 2 by blast
    ultimately show ?thesis using True by (auto intro: flood_post_skip)
  next
    case False
    then have inb: "nat cr < nrows" "nat cc < ncols" and nn: "0 \<le> cr" "0 \<le> cc" by auto
    have lv: "nat cr < length visited" and lm: "nat cr < length m"
      using inb 2(5,6) by (simp_all add: wf_matrix_def)
    have mv: "cell_at visited (nat cr) (nat cc) = (?p \<in> marked visited)"
      and mm: "cell_at m (nat cr) (nat cc) = (?p \<in> marked m)"
      using lv lm by (simp_all add: marked_def)
    show ?thesis
    proof (cases "?p \<in> marked m - marked visited")
      case out: False
      then have "floodFill nrows ncols m visited ((cr, cc) # stack) component =
                 floodFill nrows ncols m visited stack component"
        using False lv lm mv mm by (auto simp: floodFill.simps)
      moreover have "flood_post nrows ncols m visited stack component
                       (floodFill nrows ncols m visited stack component)"
      proof (cases "?p \<in> marked visited")
        case True
        then show ?thesis using False lv mv 2(2,5,6) by simp
      next
        case nv: False
        with out have "?p \<notin> marked m" by simp
        then show ?thesis using False lv lm mv mm nv 2(3,5,6) by simp
      qed
      ultimately show ?thesis using out by (auto intro: flood_post_skip)
    next
      case True
      let ?stack = "(cr, cc + 1) # (cr, cc - 1) # (cr + 1, cc) # (cr - 1, cc) # stack"
      have eq: "floodFill nrows ncols m visited ((cr, cc) # stack) component =
            floodFill nrows ncols m (mark visited (nat cr) (nat cc)) ?stack (component @ [?p])"
        using False lv lm mv mm True by (simp add: floodFill.simps)
      have wf1: "wf_matrix nrows ncols (mark visited (nat cr) (nat cc))"
        using 2(6) inb by (rule wf_mark)
      have "flood_post nrows ncols m (mark visited (nat cr) (nat cc)) ?stack (component @ [?p])
              (floodFill nrows ncols m (mark visited (nat cr) (nat cc)) ?stack (component @ [?p]))"
        using False lv lm mv mm True 2(4) [OF _ _ _ _ _ 2(5) wf1] by simp
      then have "flood_post nrows ncols m visited ((int (nat cr), int (nat cc)) # stack) component
              (floodFill nrows ncols m (mark visited (nat cr) (nat cc)) ?stack (component @ [?p]))"
        using nn by (intro flood_post_visit [OF 2(5) inb lv True]) simp
      then show ?thesis using nn by (simp add: eq)
    qed
  qed
qed

subsection \<open>The scan\<close>

lemma scan_order_Suc:
  "scan_order (Suc n) k = scan_order n k @ map (\<lambda>c. (n, c)) [0..<k]"
  by (simp add: scan_order_def)

lemma set_scan_order: "set (scan_order n k) = {(r, c). r < n \<and> c < k}"
  by (auto simp: scan_order_def)

lemma sorted_scan_order: "sorted_wrt row_major_less (scan_order n k)"
proof (induction n)
  case 0
  then show ?case by (simp add: scan_order_def)
next
  case (Suc n)
  have "sorted_wrt row_major_less (map (\<lambda>c. (n, c)) [0..<k])"
    by (simp add: sorted_wrt_map)
  moreover have "\<forall>x \<in> set (scan_order n k). \<forall>y \<in> set (map (\<lambda>c. (n, c)) [0..<k]). row_major_less x y"
    by (auto simp: set_scan_order)
  ultimately show ?case using Suc by (simp only: scan_order_Suc sorted_wrt_append)
qed

lemma scan_inv_closed:
  assumes "scan_inv nrows ncols m seen v comps" "p \<in> marked v" "q \<in> marked m" "adj4 p q"
  shows "q \<in> marked v"
proof -
  from assms(1,2) obtain cells where c: "cells \<in> set comps" "p \<in> set cells"
    by (auto simp: scan_inv_def)
  with assms(1) have "set cells = reach (marked m) {hd cells}"
    by (simp add: scan_inv_def)
  with c(2) assms(3,4) have "q \<in> set cells" by (auto intro: reach.step)
  with c(1) assms(1) show ?thesis by (auto simp: scan_inv_def)
qed

lemma reach_unmarked:
  assumes inv: "scan_inv nrows ncols m seen v comps" and p: "p \<in> marked m - marked v"
  shows "reach (marked m - marked v) {p} = reach (marked m) {p}"
proof
  show "reach (marked m - marked v) {p} \<subseteq> reach (marked m) {p}"
    by (rule reach_mono) auto
  show "reach (marked m) {p} \<subseteq> reach (marked m - marked v) {p}"
  proof
    fix q assume "q \<in> reach (marked m) {p}"
    then show "q \<in> reach (marked m - marked v) {p}"
    proof induction
      case (start q)
      then show ?case using p by (auto intro: reach.start)
    next
      case (step x q)
      from step.IH reach_subset have x: "x \<in> marked m" "x \<notin> marked v" by auto
      have "q \<notin> marked v"
      proof
        assume "q \<in> marked v"
        from scan_inv_closed [OF inv this x(1) adj4_sym [OF step(3)]] x(2) show False by simp
      qed
      with step show ?case by (auto intro: reach.step)
    qed
  qed
qed

lemma scan_inv_skip:
  assumes "scan_inv nrows ncols m seen v comps" "p \<notin> marked m \<or> p \<in> marked v"
  shows "scan_inv nrows ncols m (seen @ [p]) v comps"
  using assms unfolding scan_inv_def by auto

lemma scan_inv_add:
  assumes inv: "scan_inv nrows ncols m seen v comps"
    and wfm: "wf_matrix nrows ncols m"
    and p: "p \<in> marked m - marked v"
    and before: "\<forall>d \<in> set seen. row_major_less d p"
    and tri: "\<And>q. q \<in> marked m \<Longrightarrow> q \<in> set seen \<or> q = p \<or> row_major_less p q"
    and wf': "wf_matrix nrows ncols v'"
    and mk: "marked v' = marked v \<union> set new"
    and dist: "distinct new"
    and new: "set new = reach (marked m - marked v) {p}"
    and hd: "new \<noteq> []" "hd new = p"
  shows "scan_inv nrows ncols m (seen @ [p]) v' (comps @ [new])"
proof -
  have new': "set new = reach (marked m) {p}"
    using new reach_unmarked [OF inv p] by simp
  have sub: "set new \<subseteq> marked m - marked v"
    using new reach_subset by blast
  have 1: "marked v' = set (concat (comps @ [new]))"
    using inv mk by (simp add: scan_inv_def)
  have 2: "distinct (concat (comps @ [new]))"
    using inv dist sub by (auto simp: scan_inv_def)
  have pin: "p \<in> set new" using hd by (metis list.set_sel(1))
  have 3: "\<forall>q \<in> set (seen @ [p]). q \<in> marked m \<longrightarrow> q \<in> marked v'"
    using inv pin by (auto simp: scan_inv_def mk)
  have 4: "q = hd new \<or> row_major_less (hd new) q" if "q \<in> set new" for q
  proof -
    from that sub have q: "q \<in> marked m" "q \<notin> marked v" by auto
    from tri [OF q(1)] show ?thesis
    proof (elim disjE)
      assume "q \<in> set seen"
      with inv q show ?thesis by (auto simp: scan_inv_def)
    qed (simp_all add: hd)
  qed
  have 5: "\<forall>cells \<in> set (comps @ [new]).
          cells \<noteq> [] \<and> set cells = reach (marked m) {hd cells} \<and> hd cells \<in> set (seen @ [p]) \<and>
          (\<forall>q \<in> set cells. q = hd cells \<or> row_major_less (hd cells) q)"
    using inv hd new' 4 by (auto simp: scan_inv_def)
  have "\<forall>h \<in> set (map hd comps). row_major_less h p"
    using inv before by (auto simp: scan_inv_def)
  then have 6: "sorted_wrt row_major_less (map hd (comps @ [new]))"
    using inv hd by (simp add: scan_inv_def sorted_wrt_append)
  from wf' 1 2 3 5 6 show ?thesis unfolding scan_inv_def by blast
qed

lemma scan_cell_inv:
  assumes inv: "scan_inv nrows ncols m seen v comps"
    and wfm: "wf_matrix nrows ncols m"
    and inb: "r < nrows" "c < ncols"
    and before: "\<forall>d \<in> set seen. row_major_less d (r, c)"
    and tri: "\<And>q. q \<in> marked m \<Longrightarrow> q \<in> set seen \<or> q = (r, c) \<or> row_major_less (r, c) q"
  shows "\<exists>v' new. scan_cell nrows ncols m (r, c) v = Inr (v', new) \<and>
           scan_inv nrows ncols m (seen @ [(r, c)]) v' (comps @ new)"
proof -
  from inv have wfv: "wf_matrix nrows ncols v" by (simp add: scan_inv_def)
  have lv: "r < length v" and lm: "r < length m"
    using inb wfv wfm by (simp_all add: wf_matrix_def)
  have mv: "cell_at v r c = ((r, c) \<in> marked v)" and mm: "cell_at m r c = ((r, c) \<in> marked m)"
    using lv lm by (simp_all add: marked_def)
  show ?thesis
  proof (cases "(r, c) \<in> marked m - marked v")
    case False
    then have "scan_cell nrows ncols m (r, c) v = Inr (v, [])"
      using lv lm mv mm by (auto simp: scan_cell_def)
    moreover have "scan_inv nrows ncols m (seen @ [(r, c)]) v (comps @ [])"
      using scan_inv_skip [OF inv, of "(r, c)"] False by simp
    ultimately show ?thesis by blast
  next
    case True
    from floodFill_correct [OF wfm wfv, of "[(int r, int c)]" "[]"]
    obtain v' new where res: "floodFill nrows ncols m v [(int r, int c)] [] = Inr (v', new)"
      and wf': "wf_matrix nrows ncols v'"
      and mk: "marked v' = marked v \<union> set new"
      and dist: "distinct new"
      and new: "set new = reach (marked m - marked v) (stack_cells nrows ncols [(int r, int c)])"
      and hd: "\<forall>a b rest. [(int r, int c)] = (a, b) # rest \<and> 0 \<le> a \<and> a < int nrows \<and>
                 0 \<le> b \<and> b < int ncols \<and> (nat a, nat b) \<in> marked m - marked v \<longrightarrow>
               new \<noteq> [] \<and> hd new = (nat a, nat b)"
      unfolding flood_post_def by auto
    from hd True inb have hd': "new \<noteq> []" "hd new = (r, c)" by auto
    have "stack_cells nrows ncols [(int r, int c)] = {(r, c)}"
      using inb by (simp add: stack_cells_Cons stack_cells_Nil)
    with new have new': "set new = reach (marked m - marked v) {(r, c)}" by simp
    have "scan_cell nrows ncols m (r, c) v = Inr (v', [new])"
      using True lv lm mv mm res hd' by (simp add: scan_cell_def)
    moreover have "scan_inv nrows ncols m (seen @ [(r, c)]) v' (comps @ [new])"
      using inv wfm True before tri wf' mk dist new' hd' by (rule scan_inv_add)
    ultimately show ?thesis by blast
  qed
qed

lemma scanComponents_inv:
  assumes wfm: "wf_matrix nrows ncols m"
    and inv: "scan_inv nrows ncols m seen v comps"
    and sorted: "sorted_wrt row_major_less (seen @ todo)"
    and all: "set (seen @ todo) = {(r, c). r < nrows \<and> c < ncols}"
  shows "\<exists>v' comps'. scanComponents nrows ncols m todo v comps = Inr (v', comps') \<and>
           scan_inv nrows ncols m (seen @ todo) v' comps'"
  using inv sorted all
proof (induction todo arbitrary: seen v comps)
  case Nil
  then show ?case by simp
next
  case (Cons p todo)
  obtain r c where p: "p = (r, c)" by (cases p)
  from Cons.prems(3) have inb: "r < nrows" "c < ncols" by (auto simp: p)
  from Cons.prems(2) have before: "\<forall>d \<in> set seen. row_major_less d (r, c)"
    and after: "\<forall>t \<in> set todo. row_major_less (r, c) t"
    by (auto simp: sorted_wrt_append p)
  have tri: "q \<in> set seen \<or> q = (r, c) \<or> row_major_less (r, c) q" if "q \<in> marked m" for q
  proof -
    obtain r' c' where q: "q = (r', c')" by (cases q)
    from marked_bounds [OF wfm] that have "r' < nrows \<and> c' < ncols" by (simp add: q)
    then have "q \<in> set (seen @ p # todo)" using Cons.prems(3) by (simp add: q)
    then show ?thesis using after by (auto simp: p)
  qed
  from scan_cell_inv [OF Cons.prems(1) wfm inb before tri]
  obtain v1 new where step: "scan_cell nrows ncols m (r, c) v = Inr (v1, new)"
    and inv1: "scan_inv nrows ncols m (seen @ [(r, c)]) v1 (comps @ new)"
    by blast
  have "\<exists>v' comps'. scanComponents nrows ncols m todo v1 (comps @ new) = Inr (v', comps') \<and>
           scan_inv nrows ncols m ((seen @ [(r, c)]) @ todo) v' comps'"
    using inv1 Cons.prems(2,3) by (intro Cons.IH) (simp_all add: p)
  then show ?case by (simp add: scanComponents_Cons p step)
qed

lemma wf_replicate: "wf_matrix nrows ncols (replicate nrows (replicate ncols False))"
  by (simp add: wf_matrix_def)

lemma marked_replicate: "marked (replicate nrows (replicate ncols False)) = {}"
  by (auto simp: marked_def cell_at_def)

lemma wf_build_matrix: "wf_matrix nrows ncols (build_matrix g nrows ncols)"
  by (auto simp: wf_matrix_def build_matrix_def)

lemma marked_build_matrix:
  "marked (build_matrix g nrows ncols) = {(r, c). r < nrows \<and> c < ncols \<and> grid_filled g r c}"
  by (auto simp: marked_def cell_at_def build_matrix_def)

lemma scanComponents_result:
  assumes "wf_matrix nrows ncols m"
  shows "\<exists>v comps. scanComponents nrows ncols m (scan_order nrows ncols)
                      (replicate nrows (replicate ncols False)) [] = Inr (v, comps) \<and>
           scan_inv nrows ncols m (scan_order nrows ncols) v comps"
proof -
  have "scan_inv nrows ncols m [] (replicate nrows (replicate ncols False)) []"
    by (simp add: scan_inv_def wf_replicate marked_replicate)
  from scanComponents_inv [OF assms this, of "scan_order nrows ncols"]
  show ?thesis by (simp add: sorted_scan_order set_scan_order)
qed

subsection \<open>The components found\<close>

lemma math_min_Min: "xs \<noteq> [] \<Longrightarrow> math_min xs = Min (set xs)"
  by (cases xs) (simp_all add: Min.set_eq_fold [symmetric])

lemma math_max_Max: "xs \<noteq> [] \<Longrightarrow> math_max xs = Max (set xs)"
  by (cases xs) (simp_all add: Max.set_eq_fold [symmetric])

lemma bbox_rect_bounding:
  assumes "cells \<noteq> []"
  shows "bbox_rect cs rc cells = bounding_rect cs rc (set cells)"
  using assms by (simp add: bbox_rect_def bounding_rect_def math_min_Min math_max_Max Let_def)

lemma found_components:
  "\<exists>comps v. foundComponents st = Inr comps \<and>
     scan_inv (rows st) (cols st) (build_matrix (grid st) (rows st) (cols st))
       (scan_order (rows st) (cols st)) v comps \<and>
     (0 < roundedCorners st \<longrightarrow>
        generateSVG st =
          Inr (svg_document (cols st * cellSize st) (rows st * cellSize st)
                (concat (map (bbox_rect (cellSize st) (roundedCorners st)) comps))) \<and>
        generateSVG_v2 st =
          Inr (svg_document (cols st * cellSize st) (rows st * cellSize st)
                (concat (map (bbox_rect (cellSize st) (roundedCorners st)) comps))))"
proof -
  let ?m = "build_matrix (grid st) (rows st) (cols st)"
  from scanComponents_result [OF wf_build_matrix, of "rows st" "cols st" "grid st"]
  obtain v comps where res: "scanComponents (rows st) (cols st) ?m (scan_order (rows st) (cols st))
                      (replicate (rows st) (replicate (cols st) False)) [] = Inr (v, comps)"
    and inv: "scan_inv (rows st) (cols st) ?m (scan_order (rows st) (cols st)) v comps"
    by blast
  have found: "foundComponents st = Inr comps" by (simp add: foundComponents_def res)
  have gen: "0 < roundedCorners st \<longrightarrow> generateSVG st =
          Inr (svg_document (cols st * cellSize st) (rows st * cellSize st)
                (concat (map (bbox_rect (cellSize st) (roundedCorners st)) comps)))"
    by (simp add: generateSVG_def Let_def scanPath_components res)
  have gen2: "0 < roundedCorners st \<longrightarrow> generateSVG_v2 st =
          Inr (svg_document (cols st * cellSize st) (rows st * cellSize st)
                (concat (map (bbox_rect (cellSize st) (roundedCorners st)) comps)))"
    by (simp add: generateSVG_v2_def Let_def res forEach_components)
  from found inv gen gen2 show ?thesis by (intro exI [of _ comps] exI [of _ v] conjI) blast+
qed

lemma scan_inv_final:
  assumes inv: "scan_inv (rows st) (cols st) (build_matrix (grid st) (rows st) (cols st))
                  (scan_order (rows st) (cols st)) v comps"
  shows "set (concat comps) = filled st"
    and "distinct (concat comps)"
    and "[] \<notin> set comps"
    and "\<forall>cells \<in> set comps. set cells = reach (filled st) {hd cells} \<and> hd cells \<in> set cells \<and>
           (\<forall>q \<in> set cells. q = hd cells \<or> row_major_less (hd cells) q)"
    and "sorted_wrt row_major_less (map hd comps)"
proof -
  let ?m = "build_matrix (grid st) (rows st) (cols st)"
  have F: "marked ?m = filled st" by (simp add: marked_build_matrix filled_def)
  have "filled st \<subseteq> set (scan_order (rows st) (cols st))"
    by (auto simp: filled_def set_scan_order)
  with inv have "filled st \<subseteq> marked v" unfolding scan_inv_def F by blast
  moreover have "set (concat comps) \<subseteq> filled st"
  proof
    fix p assume "p \<in> set (concat comps)"
    then obtain cells where "cells \<in> set comps" "p \<in> set cells" by auto
    with inv have "p \<in> reach (filled st) {hd cells}" unfolding scan_inv_def F by blast
    then show "p \<in> filled st" using reach_subset by blast
  qed
  ultimately show "set (concat comps) = filled st" using inv unfolding scan_inv_def by blast
  show "distinct (concat comps)" using inv unfolding scan_inv_def by blast
  show "[] \<notin> set comps" using inv unfolding scan_inv_def by blast
  show "\<forall>cells \<in> set comps. set cells = reach (filled st) {hd cells} \<and> hd cells \<in> set cells \<and>
           (\<forall>q \<in> set cells. q = hd cells \<or> row_major_less (hd cells) q)"
  proof
    fix cells assume c: "cells \<in> set comps"
    with inv have "cells \<noteq> []" "set cells = reach (filled st) {hd cells}"
      "\<forall>q \<in> set cells. q = hd cells \<or> row_major_less (hd cells) q"
      unfolding scan_inv_def F by blast+
    moreover from this(1) have "hd cells \<in> set cells" by (rule hd_in_set)
    ultimately show "set cells = reach (filled st) {hd cells} \<and> hd cells \<in> set cells \<and>
           (\<forall>q \<in> set cells. q = hd cells \<or> row_major_less (hd cells) q)"
      by blast
  qed
  show "sorted_wrt row_major_less (map hd comps)" using inv unfolding scan_inv_def by blast
qed

lemma components_found:
  assumes all: "set (concat comps) = filled st"
    and each: "\<forall>cells \<in> set comps. set cells = reach (filled st) {hd cells} \<and> hd cells \<in> set cells"
  shows "set ` set comps = components st"
proof (intro equalityI subsetI)
  fix C assume "C \<in> set ` set comps"
  then obtain cells where c: "cells \<in> set comps" "C = set cells" by auto
  with each have "C = reach (filled st) {hd cells}" "hd cells \<in> set cells" by auto
  moreover from this c all have "hd cells \<in> filled st" by auto
  ultimately show "C \<in> components st" unfolding components_def by blast
next
  fix C assume "C \<in> components st"
  then obtain p where p: "p \<in> filled st" "C = reach (filled st) {p}"
    unfolding components_def by blast
  with all obtain cells where c: "cells \<in> set comps" "p \<in> set cells" by auto
  with each have "p \<in> reach (filled st) {hd cells}" "set cells = reach (filled st) {hd cells}" by auto
  with p reach_same have "C = set cells" by simp
  with c show "C \<in> set ` set comps" by blast
qed

lemma components_connected_maximal:
  assumes "C \<in> components st"
  shows "C \<noteq> {} \<and> C \<subseteq> filled st \<and>
         (\<forall>p \<in> C. \<forall>q \<in> C. q \<in> reach (filled st) {p}) \<and>
         (\<forall>p \<in> C. \<forall>q \<in> filled st. adj4 p q \<longrightarrow> q \<in> C)"
proof -
  from assms obtain p0 where p0: "p0 \<in> filled st" "C = reach (filled st) {p0}"
    unfolding components_def by blast
  then have "p0 \<in> C" by (auto intro: reach.start)
  moreover have "C \<subseteq> filled st" unfolding p0(2) by (rule reach_subset)
  moreover have "q \<in> reach (filled st) {p}" if "p \<in> C" "q \<in> C" for p q
    using that reach_same [of p "filled st" p0] unfolding p0(2) by simp
  moreover have "q \<in> C" if "p \<in> C" "q \<in> filled st" "adj4 p q" for p q
    using that unfolding p0(2) by (auto intro: reach.step)
  ultimately show ?thesis by blast
qed

lemma distinct_concat_sets:
  assumes "distinct (concat xss)" "[] \<notin> set xss"
  shows "distinct (map set xss)"
  using assms
proof (induction xss)
  case Nil
  then show ?case by simp
next
  case (Cons xs xss)
  then have "xs \<noteq> []" by auto
  then obtain x where x: "x \<in> set xs" by (cases xs) auto
  have "set xs \<noteq> set ys" if "ys \<in> set xss" for ys
  proof
    assume "set xs = set ys"
    with x that have "x \<in> set (concat xss)" by auto
    with Cons.prems(1) x show False by auto
  qed
  then show ?case using Cons by auto
qed

lemma distinct_concat_unique:
  assumes "distinct (concat xss)" "i < length xss" "j < length xss"
    "p \<in> set (xss ! i)" "p \<in> set (xss ! j)"
  shows "i = j"
  using assms
proof (induction xss arbitrary: i j)
  case Nil
  then show ?case by simp
next
  case (Cons xs xss)
  show ?case
  proof (cases i)
    case 0
    show ?thesis
    proof (cases j)
      case (Suc j')
      with Cons.prems 0 have "p \<in> set xs" "p \<in> set (concat xss)" by auto
      with Cons.prems(1) show ?thesis by auto
    qed (simp add: 0)
  next
    case (Suc i')
    show ?thesis
    proof (cases j)
      case 0
      with Cons.prems Suc have "p \<in> set xs" "p \<in> set (concat xss)" by auto
      with Cons.prems(1) show ?thesis by auto
    next
      case j: (Suc j')
      with Cons.prems Suc have "i' = j'" by (intro Cons.IH) auto
      then show ?thesis by (simp add: Suc j)
    qed
  qed
qed

lemma rounded_export:
  assumes "0 < roundedCorners st"
  shows "\<exists>comps. foundComponents st = Inr comps \<and>
           generateSVG st =
             Inr (svg_document (cols st * cellSize st) (rows st * cellSize st)
                   (concat (map (bbox_rect (cellSize st) (roundedCorners st)) comps))) \<and>
           generateSVG_v2 st =
             Inr (svg_document (cols st * cellSize st) (rows st * cellSize st)
                   (concat (map (bbox_rect (cellSize st) (roundedCorners st)) comps))) \<and>
           set (concat comps) = filled st \<and>
           distinct (concat comps) \<and>
           [] \<notin> set comps \<and>
           (\<forall>cells \<in> set comps. set cells = reach (filled st) {hd cells} \<and> hd cells \<in> set cells \<and>
              (\<forall>q \<in> set cells. q = hd cells \<or> row_major_less (hd cells) q)) \<and>
           sorted_wrt row_major_less (map hd comps)"
proof -
  from found_components [of st] assms obtain comps v where
    found: "foundComponents st = Inr comps"
    and inv: "scan_inv (rows st) (cols st) (build_matrix (grid st) (rows st) (cols st))
               (scan_order (rows st) (cols st)) v comps"
    and gen: "generateSVG st =
             Inr (svg_document (cols st * cellSize st) (rows st * cellSize st)
                   (concat (map (bbox_rect (cellSize st) (roundedCorners st)) comps)))"
    and gen2: "generateSVG_v2 st =
             Inr (svg_document (cols st * cellSize st) (rows st * cellSize st)
                   (concat (map (bbox_rect (cellSize st) (roundedCorners st)) comps)))"
    by blast
  from found gen gen2 scan_inv_final [OF inv] show ?thesis
    by (intro exI [of _ comps] conjI)
qed

lemma block_2x2_components:
  "foundComponents block_2x2 = Inr [[(0, 0), (0, 1), (1, 1), (1, 0)]]"
  by code_simp

lemma block_2x2_svg:
  "generateSVG block_2x2 = Inr (svg_document 50 50 (rect_rounded 0 0 20 20 3))"
  by code_simp

lemma two_shapes_components:
  "foundComponents two_shapes = Inr [[(0, 1), (1, 1), (1, 0)], [(2, 2)]]"
  by code_simp

lemma rounded_texts:
  assumes "[] \<notin> set comps"
  shows \<open>list_all2
           (\<lambda>t cells. \<exists>X Y W H R.
              decimal_value X = Some (Min (snd ` set cells) * cs) \<and>
              decimal_value Y = Some (Min (fst ` set cells) * cs) \<and>
              decimal_value W = Some ((Max (snd ` set cells) - Min (snd ` set cells) + 1) * cs) \<and>
              decimal_value H = Some ((Max (fst ` set cells) - Min (fst ` set cells) + 1) * cs) \<and>
              decimal_value R = Some rc \<and>
              t = ''<rect x="'' @ X @ ''" y="'' @ Y @ ''" width="'' @ W @ ''" height="'' @ H @ ''" rx="'' @ R @ ''" ry="'' @ R @ ''" fill="#000"/>'')
           (map (bbox_rect cs rc) comps) comps\<close>
  unfolding list_all2_map1 list_all2_same
proof
  fix cells assume "cells \<in> set comps"
  with assms have "cells \<noteq> []" by auto
  then have "bbox_rect cs rc cells =
      rect_rounded (Min (snd ` set cells) * cs) (Min (fst ` set cells) * cs)
        ((Max (snd ` set cells) - Min (snd ` set cells) + 1) * cs)
        ((Max (fst ` set cells) - Min (fst ` set cells) + 1) * cs) rc"
    by (simp add: bbox_rect_bounding bounding_rect_def)
  then show \<open>\<exists>X Y W H R.
     decimal_value X = Some (Min (snd ` set cells) * cs) \<and>
     decimal_value Y = Some (Min (fst ` set cells) * cs) \<and>
     decimal_value W = Some ((Max (snd ` set cells) - Min (snd ` set cells) + 1) * cs) \<and>
     decimal_value H = Some ((Max (fst ` set cells) - Min (fst ` set cells) + 1) * cs) \<and>
     decimal_value R = Some rc \<and>
     bbox_rect cs rc cells = ''<rect x="'' @ X @ ''" y="'' @ Y @ ''" width="'' @ W @ ''" height="'' @ H @ ''" rx="'' @ R @ ''" ry="'' @ R @ ''" fill="#000"/>''\<close>
    using rect_rounded_text by simp
qed

lemma rounded_export_text:
  assumes "0 < roundedCorners st"
  shows \<open>\<exists>comps texts Wd Hd.
           foundComponents st = Inr comps \<and>
           list_all2
             (\<lambda>t cells. \<exists>X Y W H R.
                decimal_value X = Some (Min (snd ` set cells) * (cellSize st)) \<and>
                decimal_value Y = Some (Min (fst ` set cells) * (cellSize st)) \<and>
                decimal_value W = Some ((Max (snd ` set cells) - Min (snd ` set cells) + 1) * (cellSize st)) \<and>
                decimal_value H = Some ((Max (fst ` set cells) - Min (fst ` set cells) + 1) * (cellSize st)) \<and>
                decimal_value R = Some (roundedCorners st) \<and>
                t = ''<rect x="'' @ X @ ''" y="'' @ Y @ ''" width="'' @ W @ ''" height="'' @ H @ ''" rx="'' @ R @ ''" ry="'' @ R @ ''" fill="#000"/>'')
             texts comps \<and>
           decimal_value Wd = Some (cols st * cellSize st) \<and>
           decimal_value Hd = Some (rows st * cellSize st) \<and>
           generateSVG st = Inr (''<svg width="'' @ Wd @ ''" height="'' @ Hd @ ''" xmlns="http://www.w3.org/2000/svg">'' @ concat texts @ ''</svg>'') \<and>
           generateSVG_v2 st = Inr (''<svg width="'' @ Wd @ ''" height="'' @ Hd @ ''" xmlns="http://www.w3.org/2000/svg">'' @ concat texts @ ''</svg>'') \<and>
           set (concat comps) = filled st \<and>
           distinct (concat comps) \<and>
           [] \<notin> set comps \<and>
           (\<forall>cells \<in> set comps. set cells = reach (filled st) {hd cells} \<and> hd cells \<in> set cells \<and>
              (\<forall>q \<in> set cells. q = hd cells \<or> row_major_less (hd cells) q)) \<and>
           sorted_wrt row_major_less (map hd comps)\<close>
proof -
  from rounded_export [OF assms] obtain comps where
    found: "foundComponents st = Inr comps"
    and gen: "generateSVG st =
             Inr (svg_document (cols st * cellSize st) (rows st * cellSize st)
                   (concat (map (bbox_rect (cellSize st) (roundedCorners st)) comps)))"
    and gen2: "generateSVG_v2 st =
             Inr (svg_document (cols st * cellSize st) (rows st * cellSize st)
                   (concat (map (bbox_rect (cellSize st) (roundedCorners st)) comps)))"
    and all: "set (concat comps) = filled st"
    and dist: "distinct (concat comps)"
    and ne: "[] \<notin> set comps"
    and each: "\<forall>cells \<in> set comps. set cells = reach (filled st) {hd cells} \<and> hd cells \<in> set cells \<and>
              (\<forall>q \<in> set cells. q = hd cells \<or> row_major_less (hd cells) q)"
    and sorted: "sorted_wrt row_major_less (map hd comps)"
    by blast
  let ?texts = "map (bbox_rect (cellSize st) (roundedCorners st)) comps"
  from svg_document_text [of "cols st * cellSize st" "rows st * cellSize st" "concat ?texts"]
  obtain Wd Hd where dims: "decimal_value Wd = Some (cols st * cellSize st)"
      "decimal_value Hd = Some (rows st * cellSize st)"
    and doc: \<open>svg_document (cols st * cellSize st) (rows st * cellSize st) (concat ?texts) =
         ''<svg width="'' @ Wd @ ''" height="'' @ Hd @ ''" xmlns="http://www.w3.org/2000/svg">'' @ concat ?texts @ ''</svg>''\<close>
    by blast
  from gen doc have 1: \<open>generateSVG st = Inr (''<svg width="'' @ Wd @ ''" height="'' @ Hd @ ''" xmlns="http://www.w3.org/2000/svg">'' @ concat ?texts @ ''</svg>'')\<close>
    by simp
  from gen2 doc have 2: \<open>generateSVG_v2 st = Inr (''<svg width="'' @ Wd @ ''" height="'' @ Hd @ ''" xmlns="http://www.w3.org/2000/svg">'' @ concat ?texts @ ''</svg>'')\<close>
    by simp
  note 3 = rounded_texts [OF ne, of "cellSize st" "roundedCorners st"]
  from found 3 dims 1 2 all dist ne each sorted show ?thesis
    by (intro exI [of _ comps] exI [of _ ?texts] exI [of _ Wd] exI [of _ Hd] conjI)
qed

lemma block_2x2_text:
  \<open>generateSVG block_2x2 =
   Inr ''<svg width="50" height="50" xmlns="http://www.w3.org/2000/svg"><rect x="0" y="0" width="20" height="20" rx="3" ry="3" fill="#000"/></svg>''\<close>
  by code_simp

lemma two_shapes_text:
  \<open>generateSVG two_shapes =
   Inr ''<svg width="24" height="24" xmlns="http://www.w3.org/2000/svg"><rect x="0" y="0" width="16" height="16" rx="2" ry="2" fill="#000"/><rect x="16" y="16" width="8" height="8" rx="2" ry="2" fill="#000"/></svg>''\<close>
  by code_simp

text \<open>
  C3. With a corner radius above 0, the components found are exactly the 4-connected
  components of the filled cells, each found once, and the document both versions return
  is, character for character, the \<^verbatim>\<open>svg\<close> envelope with the width and height of the grid
  in pixels around one \<^verbatim>\<open>rect\<close> element per component found, in their order: its \<^verbatim>\<open>x\<close>, \<^verbatim>\<open>y\<close>,
  \<^verbatim>\<open>width\<close> and \<^verbatim>\<open>height\<close> are the decimal numerals of the bounding box of the component
  (from its least to its greatest column and row, times the cell size), and its \<^verbatim>\<open>rx\<close> and
  \<^verbatim>\<open>ry\<close> the numeral of the corner radius. The 2 by 2 block at the origin, with cell size
  10 and radius 3, gives the single rectangle at 0, 0 of width and height 20 and radius 3.
\<close>

theorem one_rect_per_component:
  assumes "0 < roundedCorners st"
  shows \<open>(\<exists>comps texts Wd Hd.
            foundComponents st = Inr comps \<and>
            distinct (map set comps) \<and>
            set ` set comps = components st \<and>
            list_all2
              (\<lambda>t cells. \<exists>X Y W H R.
                 decimal_value X = Some (Min (snd ` set cells) * (cellSize st)) \<and>
                 decimal_value Y = Some (Min (fst ` set cells) * (cellSize st)) \<and>
                 decimal_value W = Some ((Max (snd ` set cells) - Min (snd ` set cells) + 1) * (cellSize st)) \<and>
                 decimal_value H = Some ((Max (fst ` set cells) - Min (fst ` set cells) + 1) * (cellSize st)) \<and>
                 decimal_value R = Some (roundedCorners st) \<and>
                 t = ''<rect x="'' @ X @ ''" y="'' @ Y @ ''" width="'' @ W @ ''" height="'' @ H @ ''" rx="'' @ R @ ''" ry="'' @ R @ ''" fill="#000"/>'')
              texts comps \<and>
            decimal_value Wd = Some (cols st * cellSize st) \<and>
            decimal_value Hd = Some (rows st * cellSize st) \<and>
            generateSVG st = Inr (''<svg width="'' @ Wd @ ''" height="'' @ Hd @ ''" xmlns="http://www.w3.org/2000/svg">'' @ concat texts @ ''</svg>'') \<and>
            generateSVG_v2 st = Inr (''<svg width="'' @ Wd @ ''" height="'' @ Hd @ ''" xmlns="http://www.w3.org/2000/svg">'' @ concat texts @ ''</svg>'')) \<and>
         generateSVG block_2x2 =
           Inr ''<svg width="50" height="50" xmlns="http://www.w3.org/2000/svg"><rect x="0" y="0" width="20" height="20" rx="3" ry="3" fill="#000"/></svg>''\<close>
proof -
  from rounded_export_text [OF assms] obtain comps texts Wd Hd where
    found: "foundComponents st = Inr comps"
    and texts: \<open>list_all2
              (\<lambda>t cells. \<exists>X Y W H R.
                 decimal_value X = Some (Min (snd ` set cells) * (cellSize st)) \<and>
                 decimal_value Y = Some (Min (fst ` set cells) * (cellSize st)) \<and>
                 decimal_value W = Some ((Max (snd ` set cells) - Min (snd ` set cells) + 1) * (cellSize st)) \<and>
                 decimal_value H = Some ((Max (fst ` set cells) - Min (fst ` set cells) + 1) * (cellSize st)) \<and>
                 decimal_value R = Some (roundedCorners st) \<and>
                 t = ''<rect x="'' @ X @ ''" y="'' @ Y @ ''" width="'' @ W @ ''" height="'' @ H @ ''" rx="'' @ R @ ''" ry="'' @ R @ ''" fill="#000"/>'')
              texts comps\<close>
    and dims: "decimal_value Wd = Some (cols st * cellSize st)"
      "decimal_value Hd = Some (rows st * cellSize st)"
    and gen: \<open>generateSVG st = Inr (''<svg width="'' @ Wd @ ''" height="'' @ Hd @ ''" xmlns="http://www.w3.org/2000/svg">'' @ concat texts @ ''</svg>'')\<close>
    and gen2: \<open>generateSVG_v2 st = Inr (''<svg width="'' @ Wd @ ''" height="'' @ Hd @ ''" xmlns="http://www.w3.org/2000/svg">'' @ concat texts @ ''</svg>'')\<close>
    and all: "set (concat comps) = filled st"
    and dist: "distinct (concat comps)"
    and ne: "[] \<notin> set comps"
    and each: "\<forall>cells \<in> set comps. set cells = reach (filled st) {hd cells} \<and> hd cells \<in> set cells \<and>
              (\<forall>q \<in> set cells. q = hd cells \<or> row_major_less (hd cells) q)"
    by blast
  have 1: "distinct (map set comps)" using dist ne by (rule distinct_concat_sets)
  have 2: "set ` set comps = components st"
    using all each by (intro components_found) auto
  from found 1 2 texts dims gen gen2
  have \<open>\<exists>comps texts Wd Hd.
            foundComponents st = Inr comps \<and>
            distinct (map set comps) \<and>
            set ` set comps = components st \<and>
            list_all2
              (\<lambda>t cells. \<exists>X Y W H R.
                 decimal_value X = Some (Min (snd ` set cells) * (cellSize st)) \<and>
                 decimal_value Y = Some (Min (fst ` set cells) * (cellSize st)) \<and>
                 decimal_value W = Some ((Max (snd ` set cells) - Min (snd ` set cells) + 1) * (cellSize st)) \<and>
                 decimal_value H = Some ((Max (fst ` set cells) - Min (fst ` set cells) + 1) * (cellSize st)) \<and>
                 decimal_value R = Some (roundedCorners st) \<and>
                 t = ''<rect x="'' @ X @ ''" y="'' @ Y @ ''" width="'' @ W @ ''" height="'' @ H @ ''" rx="'' @ R @ ''" ry="'' @ R @ ''" fill="#000"/>'')
              texts comps \<and>
            decimal_value Wd = Some (cols st * cellSize st) \<and>
            decimal_value Hd = Some (rows st * cellSize st) \<and>
            generateSVG st = Inr (''<svg width="'' @ Wd @ ''" height="'' @ Hd @ ''" xmlns="http://www.w3.org/2000/svg">'' @ concat texts @ ''</svg>'') \<and>
            generateSVG_v2 st = Inr (''<svg width="'' @ Wd @ ''" height="'' @ Hd @ ''" xmlns="http://www.w3.org/2000/svg">'' @ concat texts @ ''</svg>'')\<close>
    by (intro exI [of _ comps] exI [of _ texts] exI [of _ Wd] exI [of _ Hd] conjI)
  with block_2x2_text show ?thesis by (intro conjI)
qed

theorem one_rect_per_component_witness:
  \<open>0 < roundedCorners block_2x2 \<and>
   foundComponents block_2x2 = Inr [[(0, 0), (0, 1), (1, 1), (1, 0)]] \<and>
   components block_2x2 = {{(0, 0), (0, 1), (1, 1), (1, 0)}} \<and>
   generateSVG block_2x2 =
     Inr ''<svg width="50" height="50" xmlns="http://www.w3.org/2000/svg"><rect x="0" y="0" width="20" height="20" rx="3" ry="3" fill="#000"/></svg>''\<close>
proof -
  have rc: "0 < roundedCorners block_2x2" by (simp add: block_2x2_def)
  from one_rect_per_component [OF rc] obtain comps where
    "foundComponents block_2x2 = Inr comps" "set ` set comps = components block_2x2"
    and svg: \<open>generateSVG block_2x2 =
           Inr ''<svg width="50" height="50" xmlns="http://www.w3.org/2000/svg"><rect x="0" y="0" width="20" height="20" rx="3" ry="3" fill="#000"/></svg>''\<close>
    by blast
  then have "set ` set [[(0, 0), (0, 1), (1, 1), (1, 0)]] = components block_2x2"
    by (simp add: block_2x2_components)
  then have "components block_2x2 = {{(0, 0), (0, 1), (1, 1), (1, 0)}}"
    by (simp add: eq_commute [of _ "components block_2x2"] insert_commute)
  with rc svg show ?thesis by (simp add: block_2x2_components)
qed

text \<open>
  C6. With a corner radius above 0, the components found partition the filled cells:
  their union is the set of filled cells, no cell occurs twice in their concatenation,
  and every filled cell is in the component of exactly one index.
\<close>

theorem components_partition_filled:
  assumes "0 < roundedCorners st"
  shows "\<exists>comps. foundComponents st = Inr comps \<and>
           generateSVG st =
             Inr (svg_document (cols st * cellSize st) (rows st * cellSize st)
                   (concat (map (bbox_rect (cellSize st) (roundedCorners st)) comps))) \<and>
           (\<Union>cells \<in> set comps. set cells) = filled st \<and>
           distinct (concat comps) \<and>
           (\<forall>p \<in> filled st. \<exists>!i. i < length comps \<and> p \<in> set (comps ! i))"
proof -
  from rounded_export [OF assms] obtain comps where
    found: "foundComponents st = Inr comps"
    and gen: "generateSVG st =
             Inr (svg_document (cols st * cellSize st) (rows st * cellSize st)
                   (concat (map (bbox_rect (cellSize st) (roundedCorners st)) comps)))"
    and all: "set (concat comps) = filled st"
    and dist: "distinct (concat comps)"
    by blast
  have "\<exists>!i. i < length comps \<and> p \<in> set (comps ! i)" if "p \<in> filled st" for p
  proof -
    from that all obtain cells where "cells \<in> set comps" "p \<in> set cells" by auto
    then obtain i where "i < length comps" "p \<in> set (comps ! i)"
      by (auto simp: in_set_conv_nth)
    then show ?thesis using distinct_concat_unique [OF dist] by blast
  qed
  moreover have "(\<Union>cells \<in> set comps. set cells) = filled st" using all by simp
  ultimately show ?thesis using found gen dist by blast
qed

theorem components_partition_filled_witness:
  "0 < roundedCorners two_shapes \<and>
   foundComponents two_shapes = Inr [[(0, 1), (1, 1), (1, 0)], [(2, 2)]] \<and>
   filled two_shapes = {(0, 1), (1, 1), (1, 0), (2, 2)}"
proof -
  have rc: "0 < roundedCorners two_shapes" by (simp add: two_shapes_def)
  from components_partition_filled [OF rc] obtain comps where
    "foundComponents two_shapes = Inr comps" "(\<Union>cells \<in> set comps. set cells) = filled two_shapes"
    by blast
  then have "(\<Union>cells \<in> set [[(0, 1), (1, 1), (1, 0)], [(2, 2)]]. set cells) = filled two_shapes"
    by (simp add: two_shapes_components)
  then have "filled two_shapes = {(0, 1), (1, 1), (1, 0), (2, 2)}"
    by (simp add: eq_commute [of _ "filled two_shapes"] insert_commute)
  with rc show ?thesis by (simp add: two_shapes_components)
qed

text \<open>
  C7. With a corner radius above 0, the document is, character for character, the
  \<^verbatim>\<open>svg\<close> envelope around the \<^verbatim>\<open>rect\<close> elements of the components found, one after the other
  in the order of the components, each with the numerals of the bounding box of its
  component; the first cells of the components are in strictly increasing row-major
  order; and the first cell of a component is the cell of it that comes first in
  row-major order, the one at which the scan discovered it.
\<close>

theorem components_in_scan_order:
  assumes "0 < roundedCorners st"
  shows \<open>\<exists>comps texts Wd Hd.
           foundComponents st = Inr comps \<and>
           sorted_wrt row_major_less (map hd comps) \<and>
           (\<forall>cells \<in> set comps. hd cells \<in> set cells \<and>
              (\<forall>q \<in> set cells. q = hd cells \<or> row_major_less (hd cells) q)) \<and>
           list_all2
             (\<lambda>t cells. \<exists>X Y W H R.
                decimal_value X = Some (Min (snd ` set cells) * (cellSize st)) \<and>
                decimal_value Y = Some (Min (fst ` set cells) * (cellSize st)) \<and>
                decimal_value W = Some ((Max (snd ` set cells) - Min (snd ` set cells) + 1) * (cellSize st)) \<and>
                decimal_value H = Some ((Max (fst ` set cells) - Min (fst ` set cells) + 1) * (cellSize st)) \<and>
                decimal_value R = Some (roundedCorners st) \<and>
                t = ''<rect x="'' @ X @ ''" y="'' @ Y @ ''" width="'' @ W @ ''" height="'' @ H @ ''" rx="'' @ R @ ''" ry="'' @ R @ ''" fill="#000"/>'')
             texts comps \<and>
           decimal_value Wd = Some (cols st * cellSize st) \<and>
           decimal_value Hd = Some (rows st * cellSize st) \<and>
           generateSVG st = Inr (''<svg width="'' @ Wd @ ''" height="'' @ Hd @ ''" xmlns="http://www.w3.org/2000/svg">'' @ concat texts @ ''</svg>'')\<close>
proof -
  from rounded_export_text [OF assms] obtain comps texts Wd Hd where
    found: "foundComponents st = Inr comps"
    and texts: \<open>list_all2
              (\<lambda>t cells. \<exists>X Y W H R.
                 decimal_value X = Some (Min (snd ` set cells) * (cellSize st)) \<and>
                 decimal_value Y = Some (Min (fst ` set cells) * (cellSize st)) \<and>
                 decimal_value W = Some ((Max (snd ` set cells) - Min (snd ` set cells) + 1) * (cellSize st)) \<and>
                 decimal_value H = Some ((Max (fst ` set cells) - Min (fst ` set cells) + 1) * (cellSize st)) \<and>
                 decimal_value R = Some (roundedCorners st) \<and>
                 t = ''<rect x="'' @ X @ ''" y="'' @ Y @ ''" width="'' @ W @ ''" height="'' @ H @ ''" rx="'' @ R @ ''" ry="'' @ R @ ''" fill="#000"/>'')
              texts comps\<close>
    and dims: "decimal_value Wd = Some (cols st * cellSize st)"
      "decimal_value Hd = Some (rows st * cellSize st)"
    and gen: \<open>generateSVG st = Inr (''<svg width="'' @ Wd @ ''" height="'' @ Hd @ ''" xmlns="http://www.w3.org/2000/svg">'' @ concat texts @ ''</svg>'')\<close>
    and each: "\<forall>cells \<in> set comps. set cells = reach (filled st) {hd cells} \<and> hd cells \<in> set cells \<and>
              (\<forall>q \<in> set cells. q = hd cells \<or> row_major_less (hd cells) q)"
    and sorted: "sorted_wrt row_major_less (map hd comps)"
    by blast
  from each have first: "\<forall>cells \<in> set comps. hd cells \<in> set cells \<and>
              (\<forall>q \<in> set cells. q = hd cells \<or> row_major_less (hd cells) q)"
    by blast
  from found sorted first texts dims gen show ?thesis
    by (intro exI [of _ comps] exI [of _ texts] exI [of _ Wd] exI [of _ Hd] conjI)
qed

theorem components_in_scan_order_witness:
  \<open>0 < roundedCorners two_shapes \<and>
   foundComponents two_shapes = Inr [[(0, 1), (1, 1), (1, 0)], [(2, 2)]] \<and>
   sorted_wrt row_major_less (map hd [[(0, 1), (1, 1), (1, 0)], [(2, 2)]]) \<and>
   generateSVG two_shapes =
     Inr ''<svg width="24" height="24" xmlns="http://www.w3.org/2000/svg"><rect x="0" y="0" width="16" height="16" rx="2" ry="2" fill="#000"/><rect x="16" y="16" width="8" height="8" rx="2" ry="2" fill="#000"/></svg>''\<close>
proof -
  have rc: "0 < roundedCorners two_shapes" by (simp add: two_shapes_def)
  from components_in_scan_order [OF rc] obtain comps where
    found: "foundComponents two_shapes = Inr comps"
    and sorted: "sorted_wrt row_major_less (map hd comps)"
    by blast
  from found have comps: "comps = [[(0, 1), (1, 1), (1, 0)], [(2, 2)]]"
    by (simp add: two_shapes_components)
  from sorted have "sorted_wrt row_major_less (map hd [[(0, 1), (1, 1), (1, 0)], [(2, 2)]])"
    unfolding comps .
  with rc two_shapes_components two_shapes_text show ?thesis by (intro conjI)
qed

subsection \<open>Export without rounded corners\<close>

lemma plain_rects_filter:
  "foldl (\<lambda>rects (r, c).
            if grid_filled g r c
            then (let x = c * cs; y = r * cs in rects @ rect_plain x y cs cs)
            else rects) a xs =
   a @ concat (map (\<lambda>(r, c). rect_plain (c * cs) (r * cs) cs cs)
                (filter (\<lambda>(r, c). grid_filled g r c) xs))"
  by (induction xs arbitrary: a) (auto simp: Let_def)

lemma generateSVG_plain:
  assumes "roundedCorners st = 0"
  shows "generateSVG st =
         Inr (svg_document (cols st * cellSize st) (rows st * cellSize st)
               (concat (map (\<lambda>(r, c). rect_plain (c * cellSize st) (r * cellSize st)
                                         (cellSize st) (cellSize st))
                          (filled_cells st))))"
  using assms
  by (simp add: generateSVG_def Let_def plain_rects_def plain_rects_filter filled_cells_def)

lemma set_filled_cells: "set (filled_cells st) = filled st"
  by (auto simp: filled_cells_def filled_def set_scan_order)

lemma sorted_filled_cells: "sorted_wrt row_major_less (filled_cells st)"
  unfolding filled_cells_def by (intro sorted_wrt_filter sorted_scan_order)

lemma inert_plain_body:
  "inert (concat (map (\<lambda>(r, c). rect_plain (f r c) (g r c) w h) ps))"
  by (rule inert_concat) (auto simp: inert_rect_plain)

lemma block_2x2_filled_cells: "filled_cells block_2x2 = [(0, 0), (0, 1), (1, 0), (1, 1)]"
  by code_simp

lemma block_2x2_plain_text:
  \<open>generateSVG (block_2x2\<lparr>roundedCorners := 0\<rparr>) =
   Inr ''<svg width="50" height="50" xmlns="http://www.w3.org/2000/svg"><rect x="0" y="0" width="10" height="10" fill="#000"/><rect x="10" y="0" width="10" height="10" fill="#000"/><rect x="0" y="10" width="10" height="10" fill="#000"/><rect x="10" y="10" width="10" height="10" fill="#000"/></svg>''\<close>
  by code_simp

text \<open>
  C5. With corner radius 0 the document is, character for character, the \<^verbatim>\<open>svg\<close> envelope
  with the width and height of the grid in pixels around one \<^verbatim>\<open>rect\<close> element for each
  filled cell, the filled cells taken once each in row-major order: its \<^verbatim>\<open>x\<close> and \<^verbatim>\<open>y\<close> are
  the decimal numerals of \<^verbatim>\<open>c * cellSize\<close> and \<^verbatim>\<open>r * cellSize\<close>, its \<^verbatim>\<open>width\<close> and \<^verbatim>\<open>height\<close> the
  numeral of \<^verbatim>\<open>cellSize\<close>, it has no other attribute than \<^verbatim>\<open>fill\<close>, and the document
  contains neither \<^verbatim>\<open>rx=\<close> nor \<^verbatim>\<open>ry=\<close>. With a corner radius above 0 the document has one
  \<^verbatim>\<open>rect\<close> element for each component found, of which every filled cell is in one, and
  each element has an \<^verbatim>\<open>rx\<close> and an \<^verbatim>\<open>ry\<close>, both the numeral of the corner radius.
\<close>

theorem plain_export:
  \<open>(roundedCorners st = 0 \<longrightarrow>
      (\<exists>s texts Wd Hd.
         generateSVG st = Inr s \<and>
         s = ''<svg width="'' @ Wd @ ''" height="'' @ Hd @ ''" xmlns="http://www.w3.org/2000/svg">'' @ concat texts @ ''</svg>'' \<and>
         decimal_value Wd = Some (cols st * cellSize st) \<and>
         decimal_value Hd = Some (rows st * cellSize st) \<and>
         list_all2
           (\<lambda>t (r, c). \<exists>X Y S.
              decimal_value X = Some (c * (cellSize st)) \<and>
              decimal_value Y = Some (r * (cellSize st)) \<and>
              decimal_value S = Some (cellSize st) \<and>
              t = ''<rect x="'' @ X @ ''" y="'' @ Y @ ''" width="'' @ S @ ''" height="'' @ S @ ''" fill="#000"/>'')
           texts (filled_cells st) \<and>
         set (filled_cells st) = filled st \<and>
         sorted_wrt row_major_less (filled_cells st) \<and>
         \<not> string_includes s ''rx='' \<and> \<not> string_includes s ''ry='')) \<and>
   (0 < roundedCorners st \<longrightarrow>
      (\<exists>comps texts Wd Hd.
         foundComponents st = Inr comps \<and>
         set (concat comps) = filled st \<and>
         generateSVG st = Inr (''<svg width="'' @ Wd @ ''" height="'' @ Hd @ ''" xmlns="http://www.w3.org/2000/svg">'' @ concat texts @ ''</svg>'') \<and>
         decimal_value Wd = Some (cols st * cellSize st) \<and>
         decimal_value Hd = Some (rows st * cellSize st) \<and>
         list_all2
           (\<lambda>t cells. \<exists>X Y W H R.
              decimal_value X = Some (Min (snd ` set cells) * (cellSize st)) \<and>
              decimal_value Y = Some (Min (fst ` set cells) * (cellSize st)) \<and>
              decimal_value W = Some ((Max (snd ` set cells) - Min (snd ` set cells) + 1) * (cellSize st)) \<and>
              decimal_value H = Some ((Max (fst ` set cells) - Min (fst ` set cells) + 1) * (cellSize st)) \<and>
              decimal_value R = Some (roundedCorners st) \<and>
              t = ''<rect x="'' @ X @ ''" y="'' @ Y @ ''" width="'' @ W @ ''" height="'' @ H @ ''" rx="'' @ R @ ''" ry="'' @ R @ ''" fill="#000"/>'')
           texts comps))\<close>
proof (intro conjI impI)
  assume rc: "roundedCorners st = 0"
  let ?texts = "map (\<lambda>(r, c). rect_plain (c * cellSize st) (r * cellSize st)
                                   (cellSize st) (cellSize st))
                  (filled_cells st)"
  let ?s = "svg_document (cols st * cellSize st) (rows st * cellSize st) (concat ?texts)"
  have gen: "generateSVG st = Inr ?s" using rc by (rule generateSVG_plain)
  from svg_document_text [of "cols st * cellSize st" "rows st * cellSize st" "concat ?texts"]
  obtain Wd Hd where dims: "decimal_value Wd = Some (cols st * cellSize st)"
      "decimal_value Hd = Some (rows st * cellSize st)"
    and doc: \<open>?s = ''<svg width="'' @ Wd @ ''" height="'' @ Hd @ ''" xmlns="http://www.w3.org/2000/svg">'' @ concat ?texts @ ''</svg>''\<close>
    by blast
  have "\<not> string_includes ?s ''rx='' \<and> \<not> string_includes ?s ''ry=''"
    by (intro inert_no_attribute inert_svg_document inert_plain_body)
  then have no: "\<not> string_includes ?s ''rx=''" "\<not> string_includes ?s ''ry=''"
    by simp_all
  note texts = plain_texts [of "cellSize st" "filled_cells st"]
  from gen doc dims texts set_filled_cells [of st] sorted_filled_cells [of st] no
  show \<open>\<exists>s texts Wd Hd.
         generateSVG st = Inr s \<and>
         s = ''<svg width="'' @ Wd @ ''" height="'' @ Hd @ ''" xmlns="http://www.w3.org/2000/svg">'' @ concat texts @ ''</svg>'' \<and>
         decimal_value Wd = Some (cols st * cellSize st) \<and>
         decimal_value Hd = Some (rows st * cellSize st) \<and>
         list_all2
           (\<lambda>t (r, c). \<exists>X Y S.
              decimal_value X = Some (c * (cellSize st)) \<and>
              decimal_value Y = Some (r * (cellSize st)) \<and>
              decimal_value S = Some (cellSize st) \<and>
              t = ''<rect x="'' @ X @ ''" y="'' @ Y @ ''" width="'' @ S @ ''" height="'' @ S @ ''" fill="#000"/>'')
           texts (filled_cells st) \<and>
         set (filled_cells st) = filled st \<and>
         sorted_wrt row_major_less (filled_cells st) \<and>
         \<not> string_includes s ''rx='' \<and> \<not> string_includes s ''ry=''\<close>
    by (intro exI [of _ ?s] exI [of _ ?texts] exI [of _ Wd] exI [of _ Hd] conjI)
next
  assume rc: "0 < roundedCorners st"
  from rounded_export_text [OF rc] obtain comps texts Wd Hd where
    found: "foundComponents st = Inr comps"
    and texts: \<open>list_all2
              (\<lambda>t cells. \<exists>X Y W H R.
                 decimal_value X = Some (Min (snd ` set cells) * (cellSize st)) \<and>
                 decimal_value Y = Some (Min (fst ` set cells) * (cellSize st)) \<and>
                 decimal_value W = Some ((Max (snd ` set cells) - Min (snd ` set cells) + 1) * (cellSize st)) \<and>
                 decimal_value H = Some ((Max (fst ` set cells) - Min (fst ` set cells) + 1) * (cellSize st)) \<and>
                 decimal_value R = Some (roundedCorners st) \<and>
                 t = ''<rect x="'' @ X @ ''" y="'' @ Y @ ''" width="'' @ W @ ''" height="'' @ H @ ''" rx="'' @ R @ ''" ry="'' @ R @ ''" fill="#000"/>'')
              texts comps\<close>
    and dims: "decimal_value Wd = Some (cols st * cellSize st)"
      "decimal_value Hd = Some (rows st * cellSize st)"
    and gen: \<open>generateSVG st = Inr (''<svg width="'' @ Wd @ ''" height="'' @ Hd @ ''" xmlns="http://www.w3.org/2000/svg">'' @ concat texts @ ''</svg>'')\<close>
    and all: "set (concat comps) = filled st"
    by blast
  from found all gen dims texts
  show \<open>\<exists>comps texts Wd Hd.
         foundComponents st = Inr comps \<and>
         set (concat comps) = filled st \<and>
         generateSVG st = Inr (''<svg width="'' @ Wd @ ''" height="'' @ Hd @ ''" xmlns="http://www.w3.org/2000/svg">'' @ concat texts @ ''</svg>'') \<and>
         decimal_value Wd = Some (cols st * cellSize st) \<and>
         decimal_value Hd = Some (rows st * cellSize st) \<and>
         list_all2
           (\<lambda>t cells. \<exists>X Y W H R.
              decimal_value X = Some (Min (snd ` set cells) * (cellSize st)) \<and>
              decimal_value Y = Some (Min (fst ` set cells) * (cellSize st)) \<and>
              decimal_value W = Some ((Max (snd ` set cells) - Min (snd ` set cells) + 1) * (cellSize st)) \<and>
              decimal_value H = Some ((Max (fst ` set cells) - Min (fst ` set cells) + 1) * (cellSize st)) \<and>
              decimal_value R = Some (roundedCorners st) \<and>
              t = ''<rect x="'' @ X @ ''" y="'' @ Y @ ''" width="'' @ W @ ''" height="'' @ H @ ''" rx="'' @ R @ ''" ry="'' @ R @ ''" fill="#000"/>'')
           texts comps\<close>
    by (intro exI [of _ comps] exI [of _ texts] exI [of _ Wd] exI [of _ Hd] conjI)
qed

theorem plain_export_witness:
  \<open>roundedCorners (block_2x2\<lparr>roundedCorners := 0\<rparr>) = 0 \<and>
   generateSVG (block_2x2\<lparr>roundedCorners := 0\<rparr>) =
     Inr ''<svg width="50" height="50" xmlns="http://www.w3.org/2000/svg"><rect x="0" y="0" width="10" height="10" fill="#000"/><rect x="10" y="0" width="10" height="10" fill="#000"/><rect x="0" y="10" width="10" height="10" fill="#000"/><rect x="10" y="10" width="10" height="10" fill="#000"/></svg>'' \<and>
   \<not> string_includes ''<svg width="50" height="50" xmlns="http://www.w3.org/2000/svg"><rect x="0" y="0" width="10" height="10" fill="#000"/><rect x="10" y="0" width="10" height="10" fill="#000"/><rect x="0" y="10" width="10" height="10" fill="#000"/><rect x="10" y="10" width="10" height="10" fill="#000"/></svg>'' ''rx='' \<and>
   0 < roundedCorners block_2x2 \<and>
   generateSVG block_2x2 =
     Inr ''<svg width="50" height="50" xmlns="http://www.w3.org/2000/svg"><rect x="0" y="0" width="20" height="20" rx="3" ry="3" fill="#000"/></svg>'' \<and>
   string_includes ''<svg width="50" height="50" xmlns="http://www.w3.org/2000/svg"><rect x="0" y="0" width="20" height="20" rx="3" ry="3" fill="#000"/></svg>'' ''rx="3" ry="3"''\<close>
proof -
  have 0: "roundedCorners (block_2x2\<lparr>roundedCorners := 0\<rparr>) = 0" by simp
  have 3: "0 < roundedCorners block_2x2" by (simp add: block_2x2_def)
  from plain_export [of "block_2x2\<lparr>roundedCorners := 0\<rparr>"] 0
  obtain s where "generateSVG (block_2x2\<lparr>roundedCorners := 0\<rparr>) = Inr s"
    "\<not> string_includes s ''rx=''"
    by blast
  then have no: \<open>\<not> string_includes ''<svg width="50" height="50" xmlns="http://www.w3.org/2000/svg"><rect x="0" y="0" width="10" height="10" fill="#000"/><rect x="10" y="0" width="10" height="10" fill="#000"/><rect x="0" y="10" width="10" height="10" fill="#000"/><rect x="10" y="10" width="10" height="10" fill="#000"/></svg>'' ''rx=''\<close>
    by (simp add: block_2x2_plain_text)
  have yes: \<open>string_includes ''<svg width="50" height="50" xmlns="http://www.w3.org/2000/svg"><rect x="0" y="0" width="20" height="20" rx="3" ry="3" fill="#000"/></svg>'' ''rx="3" ry="3"''\<close>
    by code_simp
  from 0 block_2x2_plain_text no 3 block_2x2_text yes show ?thesis by (intro conjI)
qed

subsection \<open>Unset cells\<close>

lemma grid_filled_unset:
  "grid_filled (map (map unset_to_empty) g) r c = grid_filled g r c"
  by (auto simp: grid_filled_def unset_to_empty_def truthy_def split: option.splits)

lemma build_matrix_unset:
  "build_matrix (map (map unset_to_empty) g) nrows ncols = build_matrix g nrows ncols"
  by (simp add: build_matrix_def grid_filled_unset)

lemma plain_rects_unset:
  "plain_rects (map (map unset_to_empty) g) nrows ncols cs = plain_rects g nrows ncols cs"
  by (simp add: plain_rects_def grid_filled_unset)

lemma unset_not_filled:
  assumes "r < length (grid st)" "grid st ! r ! c = None"
  shows "(r, c) \<notin> filled st"
  using assms by (simp add: filled_def grid_filled_def truthy_def)

text \<open>
  C8. Both versions of the exporter return, for a grid, the document they return for the
  grid with every unset cell replaced by an empty one; and an unset cell is none of the
  cells a plain rectangle is emitted for, and is in no component found.
\<close>

theorem unset_exported_as_empty:
  "generateSVG (st\<lparr>grid := map (map unset_to_empty) (grid st)\<rparr>) = generateSVG st \<and>
   generateSVG_v2 (st\<lparr>grid := map (map unset_to_empty) (grid st)\<rparr>) = generateSVG_v2 st \<and>
   (r < length (grid st) \<and> grid st ! r ! c = None \<longrightarrow>
      (r, c) \<notin> set (filled_cells st) \<and>
      (\<forall>comps. foundComponents st = Inr comps \<longrightarrow> (r, c) \<notin> set (concat comps)))"
proof -
  have "(r, c) \<notin> set (concat comps)"
    if "r < length (grid st)" "grid st ! r ! c = None" "foundComponents st = Inr comps" for comps
  proof -
    from found_components [of st] that(3) obtain v where
      "scan_inv (rows st) (cols st) (build_matrix (grid st) (rows st) (cols st))
         (scan_order (rows st) (cols st)) v comps"
      by auto
    from scan_inv_final(1) [OF this] unset_not_filled [OF that(1,2)] show ?thesis by simp
  qed
  moreover have "generateSVG (st\<lparr>grid := map (map unset_to_empty) (grid st)\<rparr>) = generateSVG st"
    by (simp add: generateSVG_def Let_def build_matrix_unset plain_rects_unset)
  moreover have "generateSVG_v2 (st\<lparr>grid := map (map unset_to_empty) (grid st)\<rparr>) = generateSVG_v2 st"
    by (simp add: generateSVG_v2_def Let_def build_matrix_unset plain_rects_unset
        split: sum.splits prod.splits)
  ultimately show ?thesis
    using unset_not_filled [of r st c] by (simp add: set_filled_cells)
qed

theorem unset_exported_as_empty_witness:
  "3 < length (grid block_2x2) \<and> grid block_2x2 ! 3 ! 0 = None \<and>
   (3, 0) \<notin> set (filled_cells block_2x2) \<and>
   (3, 0) \<notin> set (concat [[(0, 0), (0, 1), (1, 1), (1, 0)]] :: (nat \<times> nat) list) \<and>
   generateSVG (block_2x2\<lparr>grid := map (map unset_to_empty) (grid block_2x2)\<rparr>) =
     Inr (svg_document 50 50 (rect_rounded 0 0 20 20 3))"
proof -
  have unset: "3 < length (grid block_2x2)" "grid block_2x2 ! 3 ! 0 = None"
    by (simp_all add: block_2x2_def)
  from unset_exported_as_empty [of block_2x2 3 0] unset
  have "generateSVG (block_2x2\<lparr>grid := map (map unset_to_empty) (grid block_2x2)\<rparr>) =
          generateSVG block_2x2"
    and "(3, 0) \<notin> set (filled_cells block_2x2)"
    and "\<forall>comps. foundComponents block_2x2 = Inr comps \<longrightarrow> (3, 0) \<notin> set (concat comps)"
    by blast+
  with unset show ?thesis by (simp add: block_2x2_svg block_2x2_components)
qed

end
